theory Spec2Isabelle
  imports Main "HOL-Library.AList"
begin

section \<open>JavaScript values\<close>

text \<open>
  The documents handled by the library are JSON values. A JavaScript object is an
  association list in insertion order (keys that look like array indices are not
  moved to the front, as JavaScript would); \<open>undefined\<close> is not a JSON value and
  is the \<open>None\<close> of \<open>jsval option\<close> wherever the source can meet it. Numbers
  are the integers (floating point is outside this model). A string is a list of
  8-bit characters, standing for the code units that \<open>length\<close> counts.
\<close>

datatype jsval =
    JNull
  | JBool bool
  | JNum int
  | JStr string
  | JArr "jsval list"
  | JObj "(string \<times> jsval) list"

datatype error = TypeError | RangeError | Error

text \<open>Truthiness, as tested by \<open>if (x)\<close>, \<open>!x\<close> and \<open>x || y\<close>.\<close>

fun truthy :: "jsval \<Rightarrow> bool" where
  "truthy JNull = False"
| "truthy (JBool b) = b"
| "truthy (JNum n) = (n \<noteq> 0)"
| "truthy (JStr s) = (s \<noteq> [])"
| "truthy (JArr xs) = True"
| "truthy (JObj kvs) = True"

text \<open>\<open>typeof v === "object"\<close>: true of objects, arrays and \<open>null\<close>.\<close>

fun typeof_object :: "jsval \<Rightarrow> bool" where
  "typeof_object JNull = True"
| "typeof_object (JArr xs) = True"
| "typeof_object (JObj kvs) = True"
| "typeof_object v = False"

text \<open>
  \<open>a === b\<close>. Primitives compare by value. Objects and arrays compare by
  reference; every comparison in the source is between a value produced by a fresh
  \<open>JSON.parse\<close> and a value from elsewhere, so two objects are never the same
  reference there.
\<close>

fun strict_eq :: "jsval \<Rightarrow> jsval \<Rightarrow> bool" where
  "strict_eq (JArr xs) b = False"
| "strict_eq (JObj kvs) b = False"
| "strict_eq a b = (a = b)"

text \<open>The same between possibly undefined values: \<open>undefined === undefined\<close>.\<close>

fun strict_eq_opt :: "jsval option \<Rightarrow> jsval option \<Rightarrow> bool" where
  "strict_eq_opt None None = True"
| "strict_eq_opt (Some a) (Some b) = strict_eq a b"
| "strict_eq_opt a b = False"

subsection \<open>Decimal numerals\<close>

definition digit_char :: "nat \<Rightarrow> char" where
  "digit_char d = ''0123456789'' ! (d mod 10)"

fun string_of_nat :: "nat \<Rightarrow> string" where
  "string_of_nat n =
     (if n < 10 then [digit_char n] else string_of_nat (n div 10) @ [digit_char (n mod 10)])"

declare string_of_nat.simps [simp del]

definition string_of_int :: "int \<Rightarrow> string" where
  "string_of_int i = (if i < 0 then CHR ''-'' # string_of_nat (nat (- i)) else string_of_nat (nat i))"

subsection \<open>Own properties\<close>

text \<open>
  The own enumerable properties of a value, as \<open>for (key in v)\<close> and the spread
  \<open>{...v}\<close> see them: the fields of an object, the indices of an array, the
  indices of a string; none for the other primitives.
\<close>

fun own_fields :: "jsval \<Rightarrow> (string \<times> jsval) list" where
  "own_fields (JObj kvs) = kvs"
| "own_fields (JArr xs) = zip (map string_of_nat [0..<length xs]) xs"
| "own_fields (JStr s) = zip (map string_of_nat [0..<length s]) (map (\<lambda>c. JStr [c]) s)"
| "own_fields v = []"

text \<open>
  The own property \<open>key\<close> of a non-null value, \<open>None\<close> when it has none: what
  \<open>v[key]\<close> finds before it turns to the prototype of \<open>v\<close>.
\<close>

fun get_prop :: "jsval \<Rightarrow> string \<Rightarrow> jsval option" where
  "get_prop (JObj kvs) key = map_of kvs key"
| "get_prop (JArr xs) key =
     (if key = ''length'' then Some (JNum (int (length xs))) else map_of (own_fields (JArr xs)) key)"
| "get_prop (JStr s) key =
     (if key = ''length'' then Some (JNum (int (length s))) else map_of (own_fields (JStr s)) key)"
| "get_prop v key = None"

text \<open>\<open>{ ...a, ...b }\<close>: a fresh object, later assignments to a key keep its place.\<close>

definition assign_all :: "(string \<times> jsval) list \<Rightarrow> (string \<times> jsval) list \<Rightarrow> (string \<times> jsval) list" where
  "assign_all acc kvs = foldl (\<lambda>r (k, v). AList.update k v r) acc kvs"

definition spread :: "jsval \<Rightarrow> (string \<times> jsval) list" where
  "spread v = assign_all [] (own_fields v)"

subsection \<open>What a read can give\<close>

text \<open>
  A read \<open>v[key]\<close> that finds no own property goes on to the prototype of \<open>v\<close>:
  \<open>Object.prototype\<close> for an object; for an array, a string, a number and a
  boolean the prototype of their kind, then \<open>Object.prototype\<close>. What it finds
  there is not a JSON value: a method of the language (\<open>constructor\<close>,
  \<open>toString\<close>, ...), named here by the prototype that defines it and its name,
  or, for the accessor \<open>__proto__\<close>, the prototype itself.
\<close>

datatype proto =
    ObjectPrototype
  | ArrayPrototype
  | StringPrototype
  | NumberPrototype
  | BooleanPrototype

datatype jsref =
    Undefined
  | Value jsval
  | Method proto string
  | Prototype proto

text \<open>
  \<open>a === b\<close> between two such reads. Two methods are the same function when
  one prototype defines both under one name. (A prototype can give one function
  two names, as \<open>String.prototype\<close> does with \<open>trimLeft\<close> and \<open>trimStart\<close>;
  \<open>Object.prototype\<close> and \<open>Array.prototype\<close> do not, and a local value, read
  from an object whose prototype is one of them or a document, holds no method of
  another prototype.)
\<close>

fun strict_eq_ref :: "jsref \<Rightarrow> jsref \<Rightarrow> bool" where
  "strict_eq_ref Undefined Undefined = True"
| "strict_eq_ref (Value a) (Value b) = strict_eq a b"
| "strict_eq_ref (Method p n) (Method q m) = (p = q \<and> n = m)"
| "strict_eq_ref (Prototype p) (Prototype q) = (p = q)"
| "strict_eq_ref a b = False"

text \<open>
  \<open>Array.isArray(x)\<close>, with the elements of \<open>x\<close> when it holds.
  \<open>Array.prototype\<close> is itself an array, an empty one.
\<close>

fun array_elements :: "jsref \<Rightarrow> jsval list option" where
  "array_elements (Value (JArr xs)) = Some xs"
| "array_elements (Prototype p) = (if p = ArrayPrototype then Some [] else None)"
| "array_elements x = None"

section \<open>The host: JSON and the scoreboard\<close>

text \<open>
  \<open>JSON.stringify\<close>, \<open>JSON.parse\<close>, the methods of the built-in prototypes and
  \<open>world.scoreboard\<close> belong to the host, not to the library. The two JSON
  functions, the table of the methods and the failure of \<open>addObjective\<close> are
  parameters of every operation below; \<open>JSON_parse\<close> answers \<open>None\<close> where
  \<open>JSON.parse\<close> throws, and \<open>prototype_method p name\<close> holds when the prototype
  \<open>p\<close> itself has a method of that name.
\<close>

record host =
  JSON_stringify :: "jsval \<Rightarrow> string"
  JSON_parse :: "string \<Rightarrow> jsval option"
  prototype_method :: "proto \<Rightarrow> string \<Rightarrow> bool"
  addObjective_throws :: "string \<Rightarrow> bool"

subsection \<open>Reading through the prototype chain\<close>

fun proto_of :: "jsval \<Rightarrow> proto" where
  "proto_of (JArr xs) = ArrayPrototype"
| "proto_of (JStr s) = StringPrototype"
| "proto_of (JNum n) = NumberPrototype"
| "proto_of (JBool b) = BooleanPrototype"
| "proto_of v = ObjectPrototype"

text \<open>The name of the accessor of \<open>Object.prototype\<close> for the prototype of a value.\<close>

definition proto_key :: string where
  "proto_key = ''__proto__''"

text \<open>
  What a value whose prototype is \<open>p\<close> inherits under \<open>key\<close>. The getter of
  \<open>__proto__\<close> answers the prototype of the value it is read from.
\<close>

definition inherited :: "host \<Rightarrow> proto \<Rightarrow> string \<Rightarrow> jsref" where
  "inherited h p key =
     (if key = proto_key then Prototype p
      else if prototype_method h p key then Method p key
      else if prototype_method h ObjectPrototype key then Method ObjectPrototype key
      else Undefined)"

text \<open>\<open>v[key]\<close> on a non-null JSON value.\<close>

definition js_get :: "host \<Rightarrow> jsval \<Rightarrow> string \<Rightarrow> jsref" where
  "js_get h v key =
     (case get_prop v key of
        Some x \<Rightarrow> Value x
      | None \<Rightarrow> inherited h (proto_of v) key)"

subsection \<open>A JSON implementation for integer-valued documents\<close>

text \<open>
  A printer and a parser for the JSON of this model, used where a theorem is
  evaluated on a concrete input. The printer writes no white space and escapes
  strings as \<open>JSON.stringify\<close> does; the parser is a recursive descent whose
  fuel is the length of the text. It refuses what \<open>JSON.parse\<close> refuses on the
  texts of this model, and also the numbers with a fraction or an exponent and
  the escapes of code units above 255, which the model cannot hold.
\<close>

definition dquote :: char where "dquote = CHR 0x22"
definition backslash :: char where "backslash = CHR 0x5C"

definition hex_char :: "nat \<Rightarrow> char" where
  "hex_char d = ''0123456789abcdef'' ! (d mod 16)"

definition escape_char :: "char \<Rightarrow> string" where
  "escape_char c =
     (if c = dquote then [backslash, dquote]
      else if c = backslash then [backslash, backslash]
      else if c = CHR 0x08 then [backslash, CHR ''b'']
      else if c = CHR 0x0C then [backslash, CHR ''f'']
      else if c = CHR 0x0A then [backslash, CHR ''n'']
      else if c = CHR 0x0D then [backslash, CHR ''r'']
      else if c = CHR 0x09 then [backslash, CHR ''t'']
      else if (of_char c :: nat) < 32
        then [backslash, CHR ''u'', CHR ''0'', CHR ''0'', hex_char (of_char c div 16), hex_char (of_char c mod 16)]
      else [c])"

definition quote :: "string \<Rightarrow> string" where
  "quote s = dquote # concat (map escape_char s) @ [dquote]"

fun join_with :: "string \<Rightarrow> string list \<Rightarrow> string" where
  "join_with sep [] = []"
| "join_with sep [x] = x"
| "join_with sep (x # y # ys) = x @ sep @ join_with sep (y # ys)"

fun json_stringify :: "jsval \<Rightarrow> string" where
  "json_stringify JNull = ''null''"
| "json_stringify (JBool b) = (if b then ''true'' else ''false'')"
| "json_stringify (JNum n) = string_of_int n"
| "json_stringify (JStr s) = quote s"
| "json_stringify (JArr xs) = ''['' @ join_with '','' (map json_stringify xs) @ '']''"
| "json_stringify (JObj kvs) =
     ''{'' @ join_with '','' (map (\<lambda>kv. quote (fst kv) @ '':'' @ json_stringify (snd kv)) kvs) @ ''}''"

definition json_space :: "char \<Rightarrow> bool" where
  "json_space c = (c = CHR 0x20 \<or> c = CHR 0x09 \<or> c = CHR 0x0A \<or> c = CHR 0x0D)"

definition skip_ws :: "string \<Rightarrow> string" where
  "skip_ws s = dropWhile json_space s"

fun strip_prefix :: "string \<Rightarrow> string \<Rightarrow> string option" where
  "strip_prefix [] s = Some s"
| "strip_prefix (c # cs) [] = None"
| "strip_prefix (c # cs) (x # xs) = (if c = x then strip_prefix cs xs else None)"

definition digit_val :: "char \<Rightarrow> nat option" where
  "digit_val c = (let n = (of_char c :: nat) in if 48 \<le> n \<and> n \<le> 57 then Some (n - 48) else None)"

definition hex_val :: "char \<Rightarrow> nat option" where
  "hex_val c =
     (let n = (of_char c :: nat)
      in if 48 \<le> n \<and> n \<le> 57 then Some (n - 48)
         else if 97 \<le> n \<and> n \<le> 102 then Some (n - 87)
         else if 65 \<le> n \<and> n \<le> 70 then Some (n - 55)
         else None)"

fun parse_digits :: "nat \<Rightarrow> string \<Rightarrow> nat \<times> string" where
  "parse_digits acc [] = (acc, [])"
| "parse_digits acc (c # cs) =
     (case digit_val c of Some d \<Rightarrow> parse_digits (10 * acc + d) cs | None \<Rightarrow> (acc, c # cs))"

text \<open>
  An integer: \<open>0\<close>, or a nonzero digit followed by digits. A fraction or an exponent
  is outside the model and is refused.
\<close>

definition parse_nat :: "string \<Rightarrow> (nat \<times> string) option" where
  "parse_nat s =
     (case s of
        [] \<Rightarrow> None
      | c # cs \<Rightarrow>
          (case digit_val c of
             None \<Rightarrow> None
           | Some d \<Rightarrow>
               (case (if d = 0 then (0, cs) else parse_digits d cs) of
                  (n, r) \<Rightarrow>
                    (case r of
                       [] \<Rightarrow> Some (n, r)
                     | x # xs \<Rightarrow>
                         if x = CHR ''.'' \<or> x = CHR ''e'' \<or> x = CHR ''E'' then None
                         else Some (n, r)))))"

definition parse_number :: "string \<Rightarrow> (jsval \<times> string) option" where
  "parse_number s =
     (case strip_prefix ''-'' s of
        Some r \<Rightarrow> map_option (\<lambda>(n, r'). (JNum (- int n), r')) (parse_nat r)
      | None \<Rightarrow> map_option (\<lambda>(n, r'). (JNum (int n), r')) (parse_nat s))"

fun parse_chars :: "string \<Rightarrow> (string \<times> string) option" where
  "parse_chars [] = None"
| "parse_chars (c # cs) =
     (if c = dquote then Some ([], cs)
      else if c = backslash then
        (case cs of
           [] \<Rightarrow> None
         | e # r \<Rightarrow>
             if e = CHR ''u'' then
               (case r of
                  a # b # x # y # r' \<Rightarrow>
                    (case (hex_val a, hex_val b, hex_val x, hex_val y) of
                       (Some 0, Some 0, Some m, Some n) \<Rightarrow>
                         map_option (\<lambda>(t, r''). (char_of (16 * m + n) # t, r'')) (parse_chars r')
                     | _ \<Rightarrow> None)
                | _ \<Rightarrow> None)
             else
               (case map_of [(dquote, dquote), (backslash, backslash), (CHR ''/'', CHR ''/''), (CHR ''b'', CHR 0x08),
                             (CHR ''f'', CHR 0x0C), (CHR ''n'', CHR 0x0A), (CHR ''r'', CHR 0x0D),
                             (CHR ''t'', CHR 0x09)] e of
                  None \<Rightarrow> None
                | Some x \<Rightarrow> map_option (\<lambda>(t, r'). (x # t, r')) (parse_chars r)))
      else if (of_char c :: nat) < 32 then None
      else map_option (\<lambda>(t, r). (c # t, r)) (parse_chars cs))"

fun parse_value :: "nat \<Rightarrow> string \<Rightarrow> (jsval \<times> string) option"
  and parse_elements :: "nat \<Rightarrow> string \<Rightarrow> (jsval list \<times> string) option"
  and parse_members :: "nat \<Rightarrow> string \<Rightarrow> ((string \<times> jsval) list \<times> string) option" where
  "parse_value 0 s = None"
| "parse_value (Suc n) s =
     (let t = skip_ws s
      in case strip_prefix ''null'' t of Some r \<Rightarrow> Some (JNull, r) | None \<Rightarrow>
         case strip_prefix ''true'' t of Some r \<Rightarrow> Some (JBool True, r) | None \<Rightarrow>
         case strip_prefix ''false'' t of Some r \<Rightarrow> Some (JBool False, r) | None \<Rightarrow>
         case strip_prefix [dquote] t of
           Some r \<Rightarrow> map_option (\<lambda>(str, r'). (JStr str, r')) (parse_chars r) | None \<Rightarrow>
         case strip_prefix ''['' t of
           Some r \<Rightarrow>
             (case strip_prefix '']'' (skip_ws r) of
                Some r' \<Rightarrow> Some (JArr [], r')
              | None \<Rightarrow> map_option (\<lambda>(xs, r'). (JArr xs, r')) (parse_elements n r)) | None \<Rightarrow>
         case strip_prefix ''{'' t of
           Some r \<Rightarrow>
             (case strip_prefix ''}'' (skip_ws r) of
                Some r' \<Rightarrow> Some (JObj [], r')
              | None \<Rightarrow> map_option (\<lambda>(kvs, r'). (JObj (assign_all [] kvs), r')) (parse_members n r)) | None \<Rightarrow>
         parse_number t)"
| "parse_elements 0 s = None"
| "parse_elements (Suc n) s =
     (case parse_value n s of
        None \<Rightarrow> None
      | Some (v, r) \<Rightarrow>
          (let t = skip_ws r
           in case strip_prefix '','' t of
                Some r' \<Rightarrow> map_option (\<lambda>(vs, r''). (v # vs, r'')) (parse_elements n r')
              | None \<Rightarrow> map_option (\<lambda>r'. ([v], r')) (strip_prefix '']'' t)))"
| "parse_members 0 s = None"
| "parse_members (Suc n) s =
     (case strip_prefix [dquote] (skip_ws s) of
        None \<Rightarrow> None
      | Some r \<Rightarrow>
          (case parse_chars r of
             None \<Rightarrow> None
           | Some (key, r1) \<Rightarrow>
               (case strip_prefix '':'' (skip_ws r1) of
                  None \<Rightarrow> None
                | Some r2 \<Rightarrow>
                    (case parse_value n r2 of
                       None \<Rightarrow> None
                     | Some (v, r3) \<Rightarrow>
                         (let t = skip_ws r3
                          in case strip_prefix '','' t of
                               Some r4 \<Rightarrow> map_option (\<lambda>(kvs, r5). ((key, v) # kvs, r5)) (parse_members n r4)
                             | None \<Rightarrow> map_option (\<lambda>r4. ([(key, v)], r4)) (strip_prefix ''}'' t))))))"

declare parse_value.simps [simp del] parse_elements.simps [simp del] parse_members.simps [simp del]

definition json_parse :: "string \<Rightarrow> jsval option" where
  "json_parse s =
     (case parse_value (Suc (length s)) s of
        None \<Rightarrow> None
      | Some (v, r) \<Rightarrow> if skip_ws r = [] then Some v else None)"

text \<open>
  The methods of the built-in prototypes, as of ECMAScript 2023. An engine of
  another edition has a few more or fewer: the table is a parameter for that
  reason, and this one serves the examples.
\<close>

fun prototype_methods :: "proto \<Rightarrow> string list" where
  "prototype_methods ObjectPrototype =
     [''constructor'', ''__defineGetter__'', ''__defineSetter__'', ''hasOwnProperty'',
      ''__lookupGetter__'', ''__lookupSetter__'', ''isPrototypeOf'', ''propertyIsEnumerable'',
      ''toString'', ''valueOf'', ''toLocaleString'']"
| "prototype_methods ArrayPrototype =
     [''constructor'', ''at'', ''concat'', ''copyWithin'', ''fill'', ''find'', ''findIndex'',
      ''findLast'', ''findLastIndex'', ''lastIndexOf'', ''pop'', ''push'', ''reverse'', ''shift'',
      ''unshift'', ''slice'', ''sort'', ''splice'', ''includes'', ''indexOf'', ''join'', ''keys'',
      ''entries'', ''values'', ''forEach'', ''filter'', ''flat'', ''flatMap'', ''map'', ''every'',
      ''some'', ''reduce'', ''reduceRight'', ''toReversed'', ''toSorted'', ''toSpliced'', ''with'',
      ''toLocaleString'', ''toString'']"
| "prototype_methods StringPrototype =
     [''constructor'', ''anchor'', ''at'', ''big'', ''blink'', ''bold'', ''charAt'', ''charCodeAt'',
      ''codePointAt'', ''concat'', ''endsWith'', ''fontcolor'', ''fontsize'', ''fixed'',
      ''includes'', ''indexOf'', ''isWellFormed'', ''italics'', ''lastIndexOf'', ''link'',
      ''localeCompare'', ''match'', ''matchAll'', ''normalize'', ''padEnd'', ''padStart'',
      ''repeat'', ''replace'', ''replaceAll'', ''search'', ''slice'', ''small'', ''split'',
      ''strike'', ''sub'', ''substr'', ''substring'', ''sup'', ''startsWith'', ''toString'',
      ''toWellFormed'', ''trim'', ''trimStart'', ''trimLeft'', ''trimEnd'', ''trimRight'',
      ''toLocaleLowerCase'', ''toLocaleUpperCase'', ''toLowerCase'', ''toUpperCase'', ''valueOf'']"
| "prototype_methods NumberPrototype =
     [''constructor'', ''toExponential'', ''toFixed'', ''toPrecision'', ''toString'', ''valueOf'',
      ''toLocaleString'']"
| "prototype_methods BooleanPrototype = [''constructor'', ''toString'', ''valueOf'']"

definition json_host :: host where
  "json_host = \<lparr> JSON_stringify = json_stringify, JSON_parse = json_parse,
                 prototype_method = (\<lambda>p name. name \<in> set (prototype_methods p)),
                 addObjective_throws = (\<lambda>name. False) \<rparr>"

subsection \<open>Well-formed documents\<close>

text \<open>A well-formed document: in every object, at every depth, the keys are distinct.\<close>

fun wf_json :: "jsval \<Rightarrow> bool" where
  "wf_json (JArr xs) = (\<forall>x \<in> set xs. wf_json x)"
| "wf_json (JObj kvs) = (distinct (map fst kvs) \<and> (\<forall>kv \<in> set kvs. wf_json (snd kv)))"
| "wf_json v = True"

text \<open>The fuel that suffices to parse the serialization of a value.\<close>

fun weight :: "jsval \<Rightarrow> nat" where
  "weight (JArr xs) = 1 + sum_list (map (\<lambda>x. 1 + weight x) xs)"
| "weight (JObj kvs) = 1 + sum_list (map (\<lambda>kv. 1 + weight (snd kv)) kvs)"
| "weight v = 1"

text \<open>Classes of characters and texts, for the lexical side of the parser.\<close>

definition is_digit :: "char \<Rightarrow> bool" where
  "is_digit c = (digit_val c \<noteq> None)"

definition number_end :: "string \<Rightarrow> bool" where
  "number_end rest = (case rest of [] \<Rightarrow> True | x # xs \<Rightarrow> x \<in> {CHR '','', CHR '']'', CHR ''}''})"

definition number_start :: "char \<Rightarrow> bool" where
  "number_start c =
     (c \<notin> {CHR ''n'', CHR ''t'', CHR ''f'', dquote, CHR ''['', CHR ''{'', CHR '']'', CHR ''}''}
      \<and> \<not> json_space c)"

definition value_start :: "char \<Rightarrow> bool" where
  "value_start c = (\<not> json_space c \<and> c \<noteq> CHR '']'' \<and> c \<noteq> CHR ''}'')"

text \<open>The serialization of one member of an object.\<close>

definition member_text :: "string \<times> jsval \<Rightarrow> string" where
  "member_text kv = quote (fst kv) @ '':'' @ json_stringify (snd kv)"

subsection \<open>The scoreboard\<close>

text \<open>
  An objective holds its participants in enumeration order, each with its score.
  The participant's name is its identity: \<open>setScore\<close> on a name already present
  overwrites the score, otherwise a participant is added (at the end of the
  enumeration here; the host does not say where). \<open>removeParticipant\<close> removes
  the participant of that name. Scores are unbounded integers here; the host's are
  32-bit.
\<close>

type_synonym objective = "(string \<times> int) list"
type_synonym world = "string \<Rightarrow> objective option"

definition setScore :: "objective \<Rightarrow> string \<Rightarrow> int \<Rightarrow> objective" where
  "setScore objective p score = AList.update p score objective"

definition removeParticipant :: "objective \<Rightarrow> string \<Rightarrow> objective" where
  "removeParticipant objective p = AList.delete p objective"

definition getScore :: "objective \<Rightarrow> string \<Rightarrow> int option" where
  "getScore objective p = map_of objective p"

section \<open>ScoreboardStorage\<close>

subsection \<open>Internal utilities\<close>

text \<open>The characters \<open>String.prototype.trim\<close> removes, among the 8-bit ones.\<close>

definition js_space :: "char \<Rightarrow> bool" where
  "js_space c = (c \<in> set [CHR 0x09, CHR 0x0A, CHR 0x0B, CHR 0x0C, CHR 0x0D, CHR 0x20, CHR 0xA0])"

text \<open>
  \<open>_getObjective\<close>: the name is checked, the objective is created when absent. The
  result is the world with the objective in it, and the objective.
\<close>

definition u_getObjective :: "host \<Rightarrow> world \<Rightarrow> string \<Rightarrow> error + (world \<times> objective)" where
  "u_getObjective h w objectiveName =
     (if list_all js_space objectiveName then Inl TypeError
      else if length objectiveName > 16 then Inl RangeError
      else case w objectiveName of
             Some objective \<Rightarrow> Inr (w, objective)
           | None \<Rightarrow>
               if addObjective_throws h objectiveName then Inl Error
               else Inr (w(objectiveName \<mapsto> []), []))"

definition u_getNextId :: "objective \<Rightarrow> int" where
  "u_getNextId objective =
     foldl (\<lambda>mx (p, score). if score > mx then score else mx) 0 objective + 1"

definition u_stringify :: "host \<Rightarrow> jsval option \<Rightarrow> error + string" where
  "u_stringify h data =
     (case data of
        None \<Rightarrow> Inl TypeError
      | Some d \<Rightarrow>
          let json = JSON_stringify h d
          in if int (length json) > 32767 then Inl RangeError else Inr json)"

definition u_parse :: "host \<Rightarrow> string \<Rightarrow> jsval" where
  "u_parse h json = (case JSON_parse h json of Some v \<Rightarrow> v | None \<Rightarrow> JNull)"

subsection \<open>Write and read\<close>

text \<open>
  Every operation takes the world and, when it writes, returns the world it leaves
  behind together with its result; an exception is \<open>Inl\<close>, and the world returned
  with it is the one the exception leaves.
\<close>

definition save :: "host \<Rightarrow> world \<Rightarrow> string \<Rightarrow> jsval option \<Rightarrow> (error + int) \<times> world" where
  "save h w objectiveName data =
     (case u_getObjective h w objectiveName of
        Inl e \<Rightarrow> (Inl e, w)
      | Inr (w1, objective) \<Rightarrow>
          (case u_stringify h data of
             Inl e \<Rightarrow> (Inl e, w1)
           | Inr json \<Rightarrow>
               let id' = u_getNextId objective
               in (Inr id', w1(objectiveName \<mapsto> setScore objective json id'))))"

text \<open>
  The id is an integer here, so the \<open>typeof id !== "number" || isNaN(id)\<close> check
  of the source never fires.
\<close>

definition getElementById :: "host \<Rightarrow> world \<Rightarrow> string \<Rightarrow> int \<Rightarrow> jsval" where
  "getElementById h w objectiveName id' =
     (case w objectiveName of
        None \<Rightarrow> JNull
      | Some objective \<Rightarrow>
          (case List.find (\<lambda>(p, score). score = id') objective of
             Some (p, score) \<Rightarrow> u_parse h p
           | None \<Rightarrow> JNull))"

text \<open>
  A query argument: absent, a value (an equality filter when it is an object), or a
  predicate function.
\<close>

datatype query = QUndefined | QValue jsval | QFunction "jsval \<Rightarrow> bool"

text \<open>
  The loop \<open>for (const key in query) if (parsed[key] !== query[key]) { match = false; break; }\<close>
  leaves \<open>match\<close> true exactly when every key agrees. The right-hand side is a
  JSON value; what \<open>parsed\<close> inherits under \<open>key\<close> is none, and differs from it
  as \<open>undefined\<close> does, so that the own property decides.
\<close>

definition match_fields :: "jsval \<Rightarrow> jsval \<Rightarrow> bool" where
  "match_fields parsed q =
     list_all (\<lambda>(key, v). strict_eq_opt (get_prop parsed key) (Some v)) (own_fields q)"

text \<open>The body of the loop of \<open>getElements\<close> for one participant.\<close>

definition getElements_match :: "query \<Rightarrow> jsval \<Rightarrow> bool" where
  "getElements_match q parsed =
     (case q of
        QUndefined \<Rightarrow> True
      | QFunction f \<Rightarrow> f parsed
      | QValue v \<Rightarrow> if typeof_object v \<and> v \<noteq> JNull then match_fields parsed v else True)"

fun getElements_loop :: "host \<Rightarrow> query \<Rightarrow> objective \<Rightarrow> (int \<times> jsval) list" where
  "getElements_loop h q [] = []"
| "getElements_loop h q ((p, score) # ps) =
     (let parsed = u_parse h p
      in if parsed \<noteq> JNull \<and> getElements_match q parsed
         then (score, parsed) # getElements_loop h q ps
         else getElements_loop h q ps)"

definition getElements :: "host \<Rightarrow> world \<Rightarrow> string \<Rightarrow> query \<Rightarrow> error + (int \<times> jsval) list" where
  "getElements h w objectiveName q =
     (if (case q of QValue v \<Rightarrow> \<not> typeof_object v | _ \<Rightarrow> False) then Inl TypeError
      else case w objectiveName of
             None \<Rightarrow> Inr []
           | Some objective \<Rightarrow> Inr (getElements_loop h q objective))"

subsection \<open>Update and delete\<close>

definition updateById ::
  "host \<Rightarrow> world \<Rightarrow> string \<Rightarrow> int \<Rightarrow> jsval option \<Rightarrow> (error + bool) \<times> world" where
  "updateById h w objectiveName id' newData =
     (if newData = None then (Inl TypeError, w)
      else case w objectiveName of
             None \<Rightarrow> (Inr False, w)
           | Some objective \<Rightarrow>
               (case u_stringify h newData of
                  Inl e \<Rightarrow> (Inl e, w)
                | Inr newJsonStr \<Rightarrow>
                    (case List.find (\<lambda>(p, score). score = id') objective of
                       Some (p, score) \<Rightarrow>
                         (Inr True,
                          w(objectiveName \<mapsto> setScore (removeParticipant objective p) newJsonStr id'))
                     | None \<Rightarrow> (Inr False, w))))"

text \<open>
  The replacement of a mass update: a value to merge into each matched document, or a
  function of the old document (whose result may be \<open>undefined\<close>).
\<close>

datatype newdata = NUndefined | NValue jsval | NFunction "jsval \<Rightarrow> jsval option"

definition update_match :: "query \<Rightarrow> jsval \<Rightarrow> bool" where
  "update_match q parsed =
     (case q of
        QFunction f \<Rightarrow> f parsed
      | QValue v \<Rightarrow> if typeof_object v \<and> v \<noteq> JNull then match_fields parsed v else False
      | QUndefined \<Rightarrow> False)"

definition dataToSave :: "newdata \<Rightarrow> jsval \<Rightarrow> jsval option" where
  "dataToSave newData parsed =
     (case newData of
        NFunction f \<Rightarrow> f parsed
      | NValue v \<Rightarrow> Some (JObj (assign_all (spread parsed) (own_fields v)))
      | NUndefined \<Rightarrow> Some (JObj (spread parsed)))"

text \<open>
  The loop of \<open>update\<close> runs over the participants as they were when it started,
  while the objective changes under it: the score of a participant is read from the
  objective as it is now, the participant is removed, and only then is the new
  document serialized. A participant of the snapshot is still in the objective
  when its turn comes (only its own turn removes it), so the \<open>None\<close> case of
  its score is never met from a snapshot of distinct names.
\<close>

fun update_loop ::
  "host \<Rightarrow> query \<Rightarrow> newdata \<Rightarrow> string list \<Rightarrow> objective \<Rightarrow> nat \<Rightarrow> (error + nat) \<times> objective" where
  "update_loop h q newData [] objective updatedCount = (Inr updatedCount, objective)"
| "update_loop h q newData (p # ps) objective updatedCount =
     (let parsed = u_parse h p
      in if parsed \<noteq> JNull \<and> update_match q parsed
         then (case getScore objective p of
                 None \<Rightarrow> (Inl Error, objective)
               | Some id' \<Rightarrow>
                   let objective1 = removeParticipant objective p
                   in (case u_stringify h (dataToSave newData parsed) of
                         Inl e \<Rightarrow> (Inl e, objective1)
                       | Inr json \<Rightarrow>
                           update_loop h q newData ps (setScore objective1 json id') (Suc updatedCount)))
         else update_loop h q newData ps objective updatedCount)"

definition update ::
  "host \<Rightarrow> world \<Rightarrow> string \<Rightarrow> query \<Rightarrow> newdata \<Rightarrow> (error + nat) \<times> world" where
  "update h w objectiveName q newData =
     (case q of
        QUndefined \<Rightarrow> (Inl TypeError, w)
      | _ \<Rightarrow>
          (case newData of
             NUndefined \<Rightarrow> (Inl TypeError, w)
           | _ \<Rightarrow>
               (case w objectiveName of
                  None \<Rightarrow> (Inr 0, w)
                | Some objective \<Rightarrow>
                    (case update_loop h q newData (map fst objective) objective 0 of
                       (r, objective') \<Rightarrow> (r, w(objectiveName \<mapsto> objective'))))))"

definition deleteById :: "world \<Rightarrow> string \<Rightarrow> int \<Rightarrow> bool \<times> world" where
  "deleteById w objectiveName id' =
     (case w objectiveName of
        None \<Rightarrow> (False, w)
      | Some objective \<Rightarrow>
          (case List.find (\<lambda>(p, score). score = id') objective of
             Some (p, score) \<Rightarrow> (True, w(objectiveName \<mapsto> removeParticipant objective p))
           | None \<Rightarrow> (False, w)))"

subsection \<open>Utilities\<close>

text \<open>
  \<open>exists\<close>: with a number the loop compares scores and \<open>continue\<close>s before any
  parse; otherwise each participant is parsed and, when truthy, matched.
\<close>

fun exists_loop :: "host \<Rightarrow> jsval \<Rightarrow> objective \<Rightarrow> bool" where
  "exists_loop h q [] = False"
| "exists_loop h q ((p, score) # ps) =
     (case q of
        JNum n \<Rightarrow> if score = n then True else exists_loop h q ps
      | _ \<Rightarrow>
          let parsed = u_parse h p
          in if truthy parsed \<and> match_fields parsed q then True else exists_loop h q ps)"

definition exists :: "host \<Rightarrow> world \<Rightarrow> string \<Rightarrow> query \<Rightarrow> error + bool" where
  "exists h w objectiveName q =
     (if (case q of
            QUndefined \<Rightarrow> False
          | QValue v \<Rightarrow> \<not> (case v of JNum n \<Rightarrow> True | _ \<Rightarrow> typeof_object v)
          | QFunction f \<Rightarrow> True) then Inl TypeError
      else case w objectiveName of
             None \<Rightarrow> Inr False
           | Some objective \<Rightarrow>
               (case q of
                  QUndefined \<Rightarrow> Inr (length objective > 0)
                | QValue v \<Rightarrow> Inr (exists_loop h v objective)
                | QFunction f \<Rightarrow> Inr False))"

text \<open>
  \<open>count\<close>: without a query the number of participants; otherwise the truthy
  parsed documents that match.
\<close>

definition count_match :: "query \<Rightarrow> jsval \<Rightarrow> bool" where
  "count_match q parsed =
     (case q of
        QFunction f \<Rightarrow> f parsed
      | QValue v \<Rightarrow> match_fields parsed v
      | QUndefined \<Rightarrow> False)"

fun count_loop :: "host \<Rightarrow> query \<Rightarrow> objective \<Rightarrow> nat" where
  "count_loop h q [] = 0"
| "count_loop h q ((p, score) # ps) =
     (let parsed = u_parse h p
      in if truthy parsed \<and> count_match q parsed
         then Suc (count_loop h q ps)
         else count_loop h q ps)"

definition count :: "host \<Rightarrow> world \<Rightarrow> string \<Rightarrow> query \<Rightarrow> error + nat" where
  "count h w objectiveName q =
     (if (case q of QValue v \<Rightarrow> \<not> typeof_object v | _ \<Rightarrow> False) then Inl TypeError
      else case w objectiveName of
             None \<Rightarrow> Inr 0
           | Some objective \<Rightarrow>
               (case q of
                  QUndefined \<Rightarrow> Inr (length objective)
                | _ \<Rightarrow> Inr (count_loop h q objective)))"

section \<open>CacheManager\<close>

text \<open>
  \<open>_memory\<close> maps an objective name to its mirror, a JavaScript \<open>Map\<close> from id
  to document: an association list in insertion order, where \<open>set\<close> on a key
  already present keeps its place.
\<close>

type_synonym mirror = "(int \<times> jsval) list"
type_synonym memory = "string \<Rightarrow> mirror option"

definition u_ensureLoaded :: "host \<Rightarrow> world \<Rightarrow> memory \<Rightarrow> string \<Rightarrow> error + memory" where
  "u_ensureLoaded h w mem objectiveName =
     (case mem objectiveName of
        Some objectiveCache \<Rightarrow> Inr mem
      | None \<Rightarrow>
          (case getElements h w objectiveName QUndefined of
             Inl e \<Rightarrow> Inl e
           | Inr physicalRecords \<Rightarrow>
               Inr (mem(objectiveName \<mapsto>
                      foldl (\<lambda>objectiveCache (id', data). AList.update id' data objectiveCache)
                        [] physicalRecords))))"

text \<open>
  \<open>this._memory.get(objectiveName).set(id, data)\<close> and \<open>.delete(id)\<close>. They run
  after \<open>_ensureLoaded\<close>, so the mirror is there, and after a write that has
  succeeded, so the data is defined; in the other cases, which are never met, the
  memory is returned as it is.
\<close>

definition mirror_set :: "memory \<Rightarrow> string \<Rightarrow> int \<Rightarrow> jsval option \<Rightarrow> memory" where
  "mirror_set mem objectiveName id' data =
     (case (mem objectiveName, data) of
        (Some objectiveCache, Some d) \<Rightarrow> mem(objectiveName \<mapsto> AList.update id' d objectiveCache)
      | _ \<Rightarrow> mem)"

definition mirror_delete :: "memory \<Rightarrow> string \<Rightarrow> int \<Rightarrow> memory" where
  "mirror_delete mem objectiveName id' =
     (case mem objectiveName of
        Some objectiveCache \<Rightarrow> mem(objectiveName \<mapsto> AList.delete id' objectiveCache)
      | None \<Rightarrow> mem)"

text \<open>\<open>getById\<close> answers \<open>this._memory.get(objectiveName).get(id) || null\<close>.\<close>

definition CacheManager_getById ::
  "host \<Rightarrow> world \<Rightarrow> memory \<Rightarrow> string \<Rightarrow> int \<Rightarrow> (error + jsval) \<times> memory" where
  "CacheManager_getById h w mem objectiveName id' =
     (case u_ensureLoaded h w mem objectiveName of
        Inl e \<Rightarrow> (Inl e, mem)
      | Inr mem1 \<Rightarrow>
          (case mem1 objectiveName of
             None \<Rightarrow> (Inl TypeError, mem1)
           | Some objectiveCache \<Rightarrow>
               (Inr (case map_of objectiveCache id' of
                       Some v \<Rightarrow> if truthy v then v else JNull
                     | None \<Rightarrow> JNull), mem1)))"

definition CacheManager_getAll ::
  "host \<Rightarrow> world \<Rightarrow> memory \<Rightarrow> string \<Rightarrow> (error + (int \<times> jsval) list) \<times> memory" where
  "CacheManager_getAll h w mem objectiveName =
     (case u_ensureLoaded h w mem objectiveName of
        Inl e \<Rightarrow> (Inl e, mem)
      | Inr mem1 \<Rightarrow>
          (case mem1 objectiveName of
             None \<Rightarrow> (Inl TypeError, mem1)
           | Some objectiveCache \<Rightarrow> (Inr objectiveCache, mem1)))"

definition CacheManager_save ::
  "host \<Rightarrow> world \<Rightarrow> memory \<Rightarrow> string \<Rightarrow> jsval option \<Rightarrow> (error + int) \<times> world \<times> memory" where
  "CacheManager_save h w mem objectiveName data =
     (case u_ensureLoaded h w mem objectiveName of
        Inl e \<Rightarrow> (Inl e, w, mem)
      | Inr mem1 \<Rightarrow>
          (case save h w objectiveName data of
             (Inl e, w1) \<Rightarrow> (Inl e, w1, mem1)
           | (Inr newId, w1) \<Rightarrow> (Inr newId, w1, mirror_set mem1 objectiveName newId data)))"

definition CacheManager_updateById ::
  "host \<Rightarrow> world \<Rightarrow> memory \<Rightarrow> string \<Rightarrow> int \<Rightarrow> jsval option \<Rightarrow> (error + bool) \<times> world \<times> memory" where
  "CacheManager_updateById h w mem objectiveName id' newData =
     (case u_ensureLoaded h w mem objectiveName of
        Inl e \<Rightarrow> (Inl e, w, mem)
      | Inr mem1 \<Rightarrow>
          (case updateById h w objectiveName id' newData of
             (Inl e, w1) \<Rightarrow> (Inl e, w1, mem1)
           | (Inr success, w1) \<Rightarrow>
               (Inr success, w1,
                if success then mirror_set mem1 objectiveName id' newData else mem1)))"

definition CacheManager_deleteById ::
  "host \<Rightarrow> world \<Rightarrow> memory \<Rightarrow> string \<Rightarrow> int \<Rightarrow> (error + bool) \<times> world \<times> memory" where
  "CacheManager_deleteById h w mem objectiveName id' =
     (case u_ensureLoaded h w mem objectiveName of
        Inl e \<Rightarrow> (Inl e, w, mem)
      | Inr mem1 \<Rightarrow>
          (case deleteById w objectiveName id' of
             (success, w1) \<Rightarrow>
               (Inr success, w1,
                if success then mirror_delete mem1 objectiveName id' else mem1)))"

text \<open>
  Coherence of a loaded collection: the mirror holds exactly the (id, parsed
  document) pairs that \<open>getElements\<close> reads from the backing store.
\<close>

definition coherent :: "host \<Rightarrow> world \<Rightarrow> memory \<Rightarrow> string \<Rightarrow> bool" where
  "coherent h w mem objectiveName =
     (case mem objectiveName of
        None \<Rightarrow> True
      | Some objectiveCache \<Rightarrow>
          (case getElements h w objectiveName QUndefined of
             Inl e \<Rightarrow> False
           | Inr physicalRecords \<Rightarrow> set objectiveCache = set physicalRecords))"

text \<open>
  The conditions under which the mirror can follow the backing store. The state is
  regular when the names of the participants are distinct, their scores are
  distinct, and the mirror, when loaded, has distinct keys and is coherent. A
  document is fresh for an objective when it is not \<open>null\<close>, its serialization
  parses back to it and no participant of the objective has that serialization as
  its name.
\<close>

definition regular :: "host \<Rightarrow> world \<Rightarrow> memory \<Rightarrow> string \<Rightarrow> bool" where
  "regular h w mem objectiveName =
     (distinct (map fst (case w objectiveName of None \<Rightarrow> [] | Some objective \<Rightarrow> objective))
      \<and> distinct (map snd (case w objectiveName of None \<Rightarrow> [] | Some objective \<Rightarrow> objective))
      \<and> (case mem objectiveName of
           None \<Rightarrow> True
         | Some objectiveCache \<Rightarrow> distinct (map fst objectiveCache))
      \<and> coherent h w mem objectiveName)"

definition fresh_document :: "host \<Rightarrow> objective \<Rightarrow> jsval option \<Rightarrow> bool" where
  "fresh_document h objective data =
     (case data of
        None \<Rightarrow> True
      | Some d \<Rightarrow>
          d \<noteq> JNull \<and> JSON_parse h (JSON_stringify h d) = Some d
          \<and> JSON_stringify h d \<notin> fst ` set objective)"

section \<open>Relation\<close>

record binding =
  localField :: string
  targetObjective :: string
  targetField :: string
  as :: string
  isReverse :: bool

text \<open>
  \<open>_bindings\<close> maps a source objective to its bindings, in the order they were
  registered. \<open>_addBinding\<close> refuses a falsy parameter, which for a string is the
  empty string.
\<close>

type_synonym bindings = "string \<Rightarrow> binding list option"

definition u_addBinding ::
  "bindings \<Rightarrow> string \<Rightarrow> string \<Rightarrow> string \<Rightarrow> string \<Rightarrow> string \<Rightarrow> bool \<Rightarrow> error + bindings" where
  "u_addBinding reg sourceObjective localField' targetObjective' targetField' as' isReverse' =
     (if sourceObjective = [] \<or> localField' = [] \<or> targetObjective' = [] \<or> targetField' = []
         \<or> as' = []
      then Inl TypeError
      else Inr (reg(sourceObjective \<mapsto>
                  (case reg sourceObjective of None \<Rightarrow> [] | Some bs \<Rightarrow> bs)
                  @ [\<lparr> localField = localField', targetObjective = targetObjective',
                       targetField = targetField', as = as', isReverse = isReverse' \<rparr>])))"

definition bind ::
  "bindings \<Rightarrow> string \<Rightarrow> string \<Rightarrow> string \<Rightarrow> string \<Rightarrow> string \<Rightarrow> error + bindings" where
  "bind reg sourceObjective localField' targetObjective' targetField' as' =
     u_addBinding reg sourceObjective localField' targetObjective' targetField' as' False"

definition bindReverse ::
  "bindings \<Rightarrow> string \<Rightarrow> string \<Rightarrow> string \<Rightarrow> string \<Rightarrow> string \<Rightarrow> error + bindings" where
  "bindReverse reg sourceObjective localField' targetObjective' targetField' as' =
     u_addBinding reg sourceObjective localField' targetObjective' targetField' as' True"

text \<open>
  The \<open>relationsToPopulate\<close> argument: omitted or \<open>null\<close>, one alias, or a list of
  aliases. \<open>if (relationsToPopulate)\<close> tests its truthiness: an empty string is
  falsy, a list is truthy even when empty.
\<close>

datatype relations = RDefault | RSingle string | RMany "string list"

fun relations_truthy :: "relations \<Rightarrow> bool" where
  "relations_truthy RDefault = False"
| "relations_truthy (RSingle a) = (a \<noteq> [])"
| "relations_truthy (RMany aliases) = True"

fun requestedRelations :: "relations \<Rightarrow> string list" where
  "requestedRelations RDefault = []"
| "requestedRelations (RSingle a) = [a]"
| "requestedRelations (RMany aliases) = aliases"

definition selected :: "relations \<Rightarrow> binding list \<Rightarrow> binding list" where
  "selected rel bs =
     (if relations_truthy rel then filter (\<lambda>b. as b \<in> set (requestedRelations rel)) bs else bs)"

text \<open>
  \<open>targetRecords.find(record => record.data[targetField] === idToFind)\<close>, then
  \<open>match ? match.data : null\<close>.
\<close>

definition find_target :: "host \<Rightarrow> (int \<times> jsval) list \<Rightarrow> string \<Rightarrow> jsref \<Rightarrow> jsval" where
  "find_target h targetRecords tf idToFind =
     (case List.find (\<lambda>(id', data). strict_eq_ref (js_get h data tf) idToFind) targetRecords of
        Some (id', data) \<Rightarrow> data
      | None \<Rightarrow> JNull)"

text \<open>The filter of a reverse relation; \<open>includes\<close> compares as \<open>===\<close> does here.\<close>

definition reverse_match :: "host \<Rightarrow> string \<Rightarrow> jsref \<Rightarrow> jsval \<Rightarrow> bool" where
  "reverse_match h tf localValue data =
     (let targetVal = js_get h data tf
      in case array_elements targetVal of
           Some xs \<Rightarrow> list_ex (\<lambda>x. strict_eq_ref (Value x) localValue) xs
         | None \<Rightarrow> strict_eq_ref targetVal localValue)"

definition hydrate :: "host \<Rightarrow> binding \<Rightarrow> jsref \<Rightarrow> (int \<times> jsval) list \<Rightarrow> jsval" where
  "hydrate h b localValue targetRecords =
     (if isReverse b then
        JArr (map snd (filter (\<lambda>(id', data). reverse_match h (targetField b) localValue data) targetRecords))
      else
        (case array_elements localValue of
           Some ids \<Rightarrow>
             JArr (filter (\<lambda>item. item \<noteq> JNull)
                     (map (\<lambda>idToFind. find_target h targetRecords (targetField b) (Value idToFind)) ids))
         | None \<Rightarrow> find_target h targetRecords (targetField b) localValue))"

text \<open>
  The object \<open>result\<close> that \<open>processSingle\<close> fills: its own fields, and its
  prototype. The prototype is \<open>Object.prototype\<close> when \<open>{ ...obj }\<close> makes the
  object; an assignment to \<open>__proto__\<close> can replace it by \<open>null\<close> or by a
  document read from the store.
\<close>

datatype parent = ObjectParent | NullParent | ValueParent jsval

type_synonym clone = "(string \<times> jsval) list \<times> parent"

text \<open>
  \<open>result[key]\<close>: an own field, or what the prototype gives. Under a document
  \<open>p\<close> as prototype that is \<open>p[key]\<close>, except that the getter of \<open>__proto__\<close>,
  when \<open>p\<close> has no field of that name, answers the prototype of \<open>result\<close>, which
  is \<open>p\<close>.
\<close>

definition get_clone :: "host \<Rightarrow> clone \<Rightarrow> string \<Rightarrow> jsref" where
  "get_clone h result key =
     (case map_of (fst result) key of
        Some x \<Rightarrow> Value x
      | None \<Rightarrow>
          (case snd result of
             ObjectParent \<Rightarrow> inherited h ObjectPrototype key
           | NullParent \<Rightarrow> Undefined
           | ValueParent p \<Rightarrow>
               if key = proto_key \<and> get_prop p key = None then Value p else js_get h p key))"

text \<open>
  Whether an assignment to \<open>__proto__\<close> that finds no own field of that name
  arrives at the setter of \<open>Object.prototype\<close>: not under the prototype
  \<open>null\<close>, and not when the document that is the prototype has a field named
  \<open>__proto__\<close> (the assignment then makes an own field, as for any other name).
\<close>

fun reaches_setter :: "parent \<Rightarrow> bool" where
  "reaches_setter ObjectParent = True"
| "reaches_setter NullParent = False"
| "reaches_setter (ValueParent p) = (get_prop p proto_key = None)"

text \<open>
  \<open>result[key] = v\<close>: the own field \<open>key\<close> is replaced, or added at the end.
  The setter of \<open>__proto__\<close> adds no field: it makes an object, an array or
  \<open>null\<close> the prototype of \<open>result\<close>, and does nothing with another value.
\<close>

definition set_clone :: "clone \<Rightarrow> string \<Rightarrow> jsval \<Rightarrow> clone" where
  "set_clone result key v =
     (if key = proto_key \<and> map_of (fst result) key = None \<and> reaches_setter (snd result)
      then (fst result,
            case v of
              JNull \<Rightarrow> NullParent
            | JArr xs \<Rightarrow> ValueParent v
            | JObj kvs \<Rightarrow> ValueParent v
            | _ \<Rightarrow> snd result)
      else (AList.update key v (fst result), snd result))"

text \<open>One turn of the loop over the bindings in \<open>processSingle\<close>.\<close>

definition processBinding :: "host \<Rightarrow> world \<Rightarrow> binding \<Rightarrow> clone \<Rightarrow> error + clone" where
  "processBinding h w b result =
     (let localValue = get_clone h result (localField b)
      in if localValue = Undefined \<or> localValue = Value JNull
         then Inr (set_clone result (as b) (if isReverse b then JArr [] else JNull))
         else case getElements h w (targetObjective b) QUndefined of
                Inl e \<Rightarrow> Inl e
              | Inr targetRecords \<Rightarrow>
                  Inr (set_clone result (as b) (hydrate h b localValue targetRecords)))"

fun processBindings :: "host \<Rightarrow> world \<Rightarrow> binding list \<Rightarrow> clone \<Rightarrow> error + clone" where
  "processBindings h w [] result = Inr result"
| "processBindings h w (b # bs) result =
     (case processBinding h w b result of
        Inl e \<Rightarrow> Inl e
      | Inr result' \<Rightarrow> processBindings h w bs result')"

text \<open>
  \<open>processSingle\<close>. The value returned is the object \<open>result\<close>; a \<open>jsval\<close>
  holds its own fields, which are what \<open>Object.keys\<close>, a spread and
  \<open>JSON.stringify\<close> see of it.
\<close>

definition processSingle :: "host \<Rightarrow> world \<Rightarrow> binding list \<Rightarrow> jsval \<Rightarrow> error + jsval" where
  "processSingle h w bs obj =
     (case processBindings h w bs (spread obj, ObjectParent) of
        Inl e \<Rightarrow> Inl e
      | Inr result \<Rightarrow> Inr (JObj (fst result)))"

text \<open>\<open>rawData.map(processSingle)\<close>: the first exception ends the map.\<close>

fun map_processSingle :: "host \<Rightarrow> world \<Rightarrow> binding list \<Rightarrow> jsval list \<Rightarrow> error + jsval list" where
  "map_processSingle h w bs [] = Inr []"
| "map_processSingle h w bs (obj # objs) =
     (case processSingle h w bs obj of
        Inl e \<Rightarrow> Inl e
      | Inr r \<Rightarrow>
          (case map_processSingle h w bs objs of
             Inl e \<Rightarrow> Inl e
           | Inr rs \<Rightarrow> Inr (r # rs)))"

definition populate ::
  "host \<Rightarrow> world \<Rightarrow> bindings \<Rightarrow> string \<Rightarrow> jsval \<Rightarrow> relations \<Rightarrow> error + jsval" where
  "populate h w reg objectiveName rawData relationsToPopulate =
     (if \<not> truthy rawData then Inr JNull
      else case reg objectiveName of
             None \<Rightarrow> Inr rawData
           | Some bs \<Rightarrow>
               if bs = [] then Inr rawData
               else
                 (let bs' = selected relationsToPopulate bs
                  in case rawData of
                       JArr objs \<Rightarrow>
                         (case map_processSingle h w bs' objs of
                            Inl e \<Rightarrow> Inl e
                          | Inr rs \<Rightarrow> Inr (JArr rs))
                     | _ \<Rightarrow> processSingle h w bs' rawData))"

section \<open>Runs of operations\<close>

text \<open>
  A run of \<open>save\<close> and \<open>deleteById\<close> calls on one collection, and the ids its
  successful saves return, in order.
\<close>

datatype op = Save "jsval option" | Delete int

fun issued_ids :: "host \<Rightarrow> string \<Rightarrow> world \<Rightarrow> op list \<Rightarrow> int list" where
  "issued_ids h c w [] = []"
| "issued_ids h c w (Save data # ops) =
     (case save h w c data of
        (Inr i, w') \<Rightarrow> i # issued_ids h c w' ops
      | (Inl e, w') \<Rightarrow> issued_ids h c w' ops)"
| "issued_ids h c w (Delete i # ops) = issued_ids h c (snd (deleteById w c i)) ops"

text \<open>The largest id in use, 0 when there is none: what \<open>_getNextId\<close> adds 1 to.\<close>

definition max_id :: "world \<Rightarrow> string \<Rightarrow> int" where
  "max_id w c = (case w c of None \<Rightarrow> 0 | Some objective \<Rightarrow> Max (insert 0 (snd ` set objective)))"

text \<open>Every delete of the run is of an id other than the largest one at that moment.\<close>

fun deletes_nonmaximal :: "host \<Rightarrow> string \<Rightarrow> world \<Rightarrow> op list \<Rightarrow> bool" where
  "deletes_nonmaximal h c w [] = True"
| "deletes_nonmaximal h c w (Save data # ops) = deletes_nonmaximal h c (snd (save h w c data)) ops"
| "deletes_nonmaximal h c w (Delete i # ops) =
     (i \<noteq> max_id w c \<and> deletes_nonmaximal h c (snd (deleteById w c i)) ops)"

text \<open>The names of the participants of an objective are distinct: the name is the identity.\<close>

definition wf_world :: "world \<Rightarrow> string \<Rightarrow> bool" where
  "wf_world w c = (case w c of None \<Rightarrow> True | Some objective \<Rightarrow> distinct (map fst objective))"

section \<open>Particular states\<close>

text \<open>The entries of a collection, none when the objective is absent.\<close>

definition entries :: "world \<Rightarrow> string \<Rightarrow> objective" where
  "entries w c = (case w c of None \<Rightarrow> [] | Some objective \<Rightarrow> objective)"

text \<open>
  A collection that shares its objective with foreign data: one participant,
  with score 5, whose name is not JSON.
\<close>

definition foreign_world :: world where
  "foreign_world = Map.empty(''stats'' \<mapsto> [(''not json'', 5)])"

text \<open>A collection with one record, saved through \<open>save\<close>.\<close>

definition one_record_world :: world where
  "one_record_world = snd (save json_host Map.empty ''stats'' (Some (JObj [(''a'', JNum 1)])))"

text \<open>The transform \<open>(old) => undefined\<close>.\<close>

definition to_undefined :: "jsval \<Rightarrow> jsval option" where
  "to_undefined old = None"

text \<open>The same document saved twice through the cache, from an empty world and memory.\<close>

definition saved_twice :: "(error + int) \<times> world \<times> memory" where
  "saved_twice =
     (case CacheManager_save json_host Map.empty Map.empty ''stats'' (Some (JObj [(''a'', JNum 1)])) of
        (r, w1, mem1) \<Rightarrow> CacheManager_save json_host w1 mem1 ''stats'' (Some (JObj [(''a'', JNum 1)])))"

text \<open>The document \<open>0\<close> saved through the cache, from an empty world and memory.\<close>

definition saved_zero :: "(error + int) \<times> world \<times> memory" where
  "saved_zero = CacheManager_save json_host Map.empty Map.empty ''stats'' (Some (JNum 0))"

text \<open>A JavaScript object: its keys are distinct.\<close>

fun wf_object :: "jsval \<Rightarrow> bool" where
  "wf_object (JObj kvs) = distinct (map fst kvs)"
| "wf_object v = False"

text \<open>The bindings registered for a collection, none when it has no entry in the registry.\<close>

definition registered :: "bindings \<Rightarrow> string \<Rightarrow> binding list" where
  "registered reg c = (case reg c of None \<Rightarrow> [] | Some bs \<Rightarrow> bs)"

text \<open>The value \<open>processSingle\<close> gives an alias whose local field is missing.\<close>

definition missing_default :: "binding \<Rightarrow> jsval" where
  "missing_default b = (if isReverse b then JArr [] else JNull)"

definition empty_world :: world where
  "empty_world = Map.empty"

definition no_bindings :: bindings where
  "no_bindings = Map.empty"

text \<open>
  The registry after \<open>bindReverse("guilds", "uuid", "players", "guildId", "members")\<close>
  and \<open>bind("guilds", "members", "players", "uuid", "memberData")\<close>: the local
  field of the second binding is the alias of the first.
\<close>

definition chained_bindings :: bindings where
  "chained_bindings =
     (case bindReverse no_bindings ''guilds'' ''uuid'' ''players'' ''guildId'' ''members'' of
        Inl e \<Rightarrow> no_bindings
      | Inr reg1 \<Rightarrow>
          (case bind reg1 ''guilds'' ''members'' ''players'' ''uuid'' ''memberData'' of
             Inl e \<Rightarrow> reg1
           | Inr reg2 \<Rightarrow> reg2))"

text \<open>
  The registry after \<open>bind("players", "guildId", "guilds", "uuid", "guildData")\<close> and
  \<open>bind("players", "petId", "pets", "uuid", "petData")\<close>.
\<close>

definition player_bindings :: bindings where
  "player_bindings =
     (case bind no_bindings ''players'' ''guildId'' ''guilds'' ''uuid'' ''guildData'' of
        Inl e \<Rightarrow> no_bindings
      | Inr reg1 \<Rightarrow>
          (case bind reg1 ''players'' ''petId'' ''pets'' ''uuid'' ''petData'' of
             Inl e \<Rightarrow> reg1
           | Inr reg2 \<Rightarrow> reg2))"

text \<open>
  The registry after \<open>bind("players", "petId", "pets", "uuid", "info")\<close> and
  \<open>bind("players", "guildId", "guilds", "uuid", "info")\<close>: two bindings with one
  alias.
\<close>

definition same_alias_bindings :: bindings where
  "same_alias_bindings =
     (case bind no_bindings ''players'' ''petId'' ''pets'' ''uuid'' ''info'' of
        Inl e \<Rightarrow> no_bindings
      | Inr reg1 \<Rightarrow>
          (case bind reg1 ''players'' ''guildId'' ''guilds'' ''uuid'' ''info'' of
             Inl e \<Rightarrow> reg1
           | Inr reg2 \<Rightarrow> reg2))"

text \<open>
  The registry after \<open>bind("players", "constructor", "guilds", "constructor", "g")\<close>:
  the local field and the target field are a name every object inherits.
\<close>

definition constructor_bindings :: bindings where
  "constructor_bindings =
     (case bind no_bindings ''players'' ''constructor'' ''guilds'' ''constructor'' ''g'' of
        Inl e \<Rightarrow> no_bindings
      | Inr reg1 \<Rightarrow> reg1)"

text \<open>
  The registry after \<open>bind("players", "guildId", "guilds", "uuid", "__proto__")\<close> and
  \<open>bindReverse("players", "name", "guilds", "name", "namesakes")\<close>: the alias of
  the first binding is \<open>__proto__\<close>.
\<close>

definition proto_alias_bindings :: bindings where
  "proto_alias_bindings =
     (case bind no_bindings ''players'' ''guildId'' ''guilds'' ''uuid'' ''__proto__'' of
        Inl e \<Rightarrow> no_bindings
      | Inr reg1 \<Rightarrow>
          (case bindReverse reg1 ''players'' ''name'' ''guilds'' ''name'' ''namesakes'' of
             Inl e \<Rightarrow> reg1
           | Inr reg2 \<Rightarrow> reg2))"


text \<open>A world with one guild, saved through \<open>save\<close>.\<close>

definition guild_world :: world where
  "guild_world =
     snd (save json_host Map.empty ''guilds'' (Some (JObj [(''uuid'', JStr ''g1''), (''name'', JStr ''X'')])))"

section \<open>The JSON implementation reads back what it writes\<close>

text \<open>
  For every well-formed document, \<open>json_parse\<close> on the text \<open>json_stringify\<close>
  writes gives the document back. The proof follows the parser: strings with their
  escapes, numbers, then values by induction, with the fuel bounded by the length
  of the text.
\<close>

lemma hex_val_hex_char: "d < 16 \<Longrightarrow> hex_val (hex_char d) = Some d"
proof -
  have "list_all (\<lambda>d. hex_val (hex_char d) = Some d) [0..<16]" by code_simp
  then show "d < 16 \<Longrightarrow> hex_val (hex_char d) = Some d"
    by (simp add: list_all_iff)
qed

lemma digit_val_digit_char: "d < 10 \<Longrightarrow> digit_val (digit_char d) = Some d"
proof -
  have "list_all (\<lambda>d. digit_val (digit_char d) = Some d) [0..<10]" by code_simp
  then show "d < 10 \<Longrightarrow> digit_val (digit_char d) = Some d"
    by (simp add: list_all_iff)
qed

lemma parse_chars_escape:
  assumes "parse_chars tail = Some (s, rest)"
  shows "parse_chars (escape_char c @ tail) = Some (c # s, rest)"
proof -
  let ?n = "of_char c :: nat"
  consider (named) "c \<in> {dquote, backslash, CHR 0x08, CHR 0x0C, CHR 0x0A, CHR 0x0D, CHR 0x09}"
    | (ctrl) "c \<notin> {dquote, backslash, CHR 0x08, CHR 0x0C, CHR 0x0A, CHR 0x0D, CHR 0x09}" "?n < 32"
    | (plain) "c \<notin> {dquote, backslash, CHR 0x08, CHR 0x0C, CHR 0x0A, CHR 0x0D, CHR 0x09}" "\<not> ?n < 32"
    by blast
  then show ?thesis
  proof cases
    case named
    then show ?thesis using assms
      by (auto simp: escape_char_def dquote_def backslash_def)
  next
    case ctrl
    have e: "escape_char c = [backslash, CHR ''u'', CHR ''0'', CHR ''0'', hex_char (?n div 16), hex_char (?n mod 16)]"
      using ctrl by (simp add: escape_char_def)
    have h0: "hex_val CHR ''0'' = Some 0" by (simp add: hex_val_def)
    have h1: "hex_val (hex_char (?n div 16)) = Some (?n div 16)"
      using ctrl(2) by (intro hex_val_hex_char) simp
    have h2: "hex_val (hex_char (?n mod 16)) = Some (?n mod 16)"
      by (intro hex_val_hex_char) simp
    have c: "char_of (16 * (?n div 16) + ?n mod 16) = c" by simp
    show ?thesis
      using assms by (simp add: e h0 h1 h2 c dquote_def backslash_def del: mult_div_mod_eq)
  next
    case plain
    then show ?thesis using assms
      by (simp add: escape_char_def)
  qed
qed

lemma parse_chars_quote:
  "parse_chars (concat (map escape_char s) @ dquote # rest) = Some (s, rest)"
  by (induction s) (simp_all add: parse_chars_escape)

lemma parse_digits_append:
  "list_all is_digit xs \<Longrightarrow>
   parse_digits acc (xs @ ys) = parse_digits (foldl (\<lambda>a c. 10 * a + the (digit_val c)) acc xs) ys"
  by (induction xs arbitrary: acc) (auto simp: is_digit_def)

lemma string_of_nat_digits:
  "list_all is_digit (string_of_nat n)
   \<and> foldl (\<lambda>a c. 10 * a + the (digit_val c)) 0 (string_of_nat n) = n"
proof (induction n rule: string_of_nat.induct)
  case (1 n)
  show ?case
  proof (cases "n < 10")
    case True
    then show ?thesis
      by (subst (1 2) string_of_nat.simps) (simp add: is_digit_def digit_val_digit_char)
  next
    case False
    have d: "digit_val (digit_char (n mod 10)) = Some (n mod 10)"
      by (intro digit_val_digit_char) simp
    have s: "string_of_nat n = string_of_nat (n div 10) @ [digit_char (n mod 10)]"
      using False by (subst string_of_nat.simps) simp
    have "is_digit (digit_char (n mod 10))" using d by (simp add: is_digit_def)
    then show ?thesis
      using False 1 d by (simp add: s)
  qed
qed

lemma string_of_nat_head:
  "\<exists>d cs. string_of_nat n = digit_char d # cs \<and> d < 10 \<and> (d = 0 \<longrightarrow> n = 0 \<and> cs = [])"
proof (induction n rule: string_of_nat.induct)
  case (1 n)
  show ?case
  proof (cases "n < 10")
    case True
    then show ?thesis by (subst string_of_nat.simps) auto
  next
    case False
    then obtain d cs where h: "string_of_nat (n div 10) = digit_char d # cs" "d < 10"
      "d = 0 \<longrightarrow> n div 10 = 0 \<and> cs = []"
      using 1 by blast
    have "d \<noteq> 0" using h(3) False by auto
    then show ?thesis using h False
      by (subst string_of_nat.simps) auto
  qed
qed

lemma parse_digits_end: "number_end rest \<Longrightarrow> parse_digits acc rest = (acc, rest)"
  by (cases rest) (auto simp: number_end_def digit_val_def)

lemma parse_nat_string_of_nat:
  assumes "number_end rest"
  shows "parse_nat (string_of_nat n @ rest) = Some (n, rest)"
proof -
  obtain d cs where h: "string_of_nat n = digit_char d # cs" "d < 10" "d = 0 \<longrightarrow> n = 0 \<and> cs = []"
    using string_of_nat_head by blast
  have dv: "digit_val (digit_char d) = Some d" using h(2) by (rule digit_val_digit_char)
  have ds: "list_all is_digit cs" and v: "foldl (\<lambda>a c. 10 * a + the (digit_val c)) d cs = n"
    using string_of_nat_digits [of n] h(1) dv by simp_all
  have pd: "parse_digits d (cs @ rest) = (n, rest)"
    using parse_digits_append [OF ds, of d rest] v parse_digits_end [OF assms] by simp
  have e: "(case rest of [] \<Rightarrow> Some (m, rest)
            | x # xs \<Rightarrow> if x = CHR ''.'' \<or> x = CHR ''e'' \<or> x = CHR ''E'' then None else Some (m, rest))
           = Some (m, rest)" for m :: nat
    using assms by (cases rest) (auto simp: number_end_def)
  show ?thesis
  proof (cases "d = 0")
    case True
    then show ?thesis using h dv e by (simp add: parse_nat_def)
  next
    case False
    then show ?thesis using h dv pd e by (simp add: parse_nat_def)
  qed
qed

lemma strip_minus_digit: "d < 10 \<Longrightarrow> strip_prefix ''-'' (digit_char d # cs) = None"
proof -
  have "list_all (\<lambda>d. digit_char d \<noteq> CHR ''-'') [0..<10]" by code_simp
  then show "d < 10 \<Longrightarrow> strip_prefix ''-'' (digit_char d # cs) = None"
    by (auto simp: list_all_iff)
qed

lemma parse_number_string_of_int:
  assumes "number_end rest"
  shows "parse_number (string_of_int i @ rest) = Some (JNum i, rest)"
proof (cases "i < 0")
  case True
  then show ?thesis
    using parse_nat_string_of_nat [OF assms, of "nat (- i)"]
    by (simp add: parse_number_def string_of_int_def)
next
  case False
  obtain d cs where h: "string_of_nat (nat i) = digit_char d # cs" "d < 10"
    using string_of_nat_head by blast
  have "strip_prefix ''-'' (string_of_nat (nat i) @ rest) = None"
    using strip_minus_digit [OF h(2)] h(1) by simp
  then show ?thesis
    using False parse_nat_string_of_nat [OF assms, of "nat i"]
    by (simp add: parse_number_def string_of_int_def)
qed

lemma skip_ws_punct:
  "skip_ws (CHR '','' # cs) = CHR '','' # cs"
  "skip_ws (CHR '']'' # cs) = CHR '']'' # cs"
  "skip_ws (CHR ''}'' # cs) = CHR ''}'' # cs"
  "skip_ws (CHR '':'' # cs) = CHR '':'' # cs"
  "skip_ws (dquote # cs) = dquote # cs"
  by (simp_all add: skip_ws_def json_space_def dquote_def)

lemma number_end_punct:
  "number_end (CHR '','' # cs)" "number_end (CHR '']'' # cs)" "number_end (CHR ''}'' # cs)"
  by (simp_all add: number_end_def)

lemma digit_char_lead: "d < 10 \<Longrightarrow> number_start (digit_char d)"
proof -
  have "list_all (\<lambda>d. number_start (digit_char d)) [0..<10]"
    by code_simp
  then show "d < 10 \<Longrightarrow> number_start (digit_char d)"
    by (simp add: list_all_iff)
qed

lemma string_of_int_lead: "\<exists>c cs. string_of_int i = c # cs \<and> number_start c"
proof (cases "i < 0")
  case True
  then show ?thesis by (simp add: string_of_int_def number_start_def dquote_def json_space_def)
next
  case False
  obtain d cs where h: "string_of_nat (nat i) = digit_char d # cs" "d < 10"
    using string_of_nat_head by blast
  then show ?thesis using False digit_char_lead [OF h(2)] by (simp add: string_of_int_def)
qed

lemma strip_prefix_other: "c \<noteq> x \<Longrightarrow> strip_prefix (c # cs) (x # xs) = None"
  by simp

lemma strip_prefix_same: "strip_prefix [c] (c # xs) = Some xs"
  by simp

text \<open>What \<open>parse_value\<close> does on a text, by its first character.\<close>

lemma parse_value_other:
  assumes "c \<notin> {CHR ''n'', CHR ''t'', CHR ''f'', dquote, CHR ''['', CHR ''{''}" "\<not> json_space c"
  shows "parse_value (Suc n) (c # cs) = parse_number (c # cs)"
proof -
  have s: "skip_ws (c # cs) = c # cs" using assms(2) by (simp add: skip_ws_def)
  have 1: "strip_prefix ''null'' (c # cs) = None" using assms(1) by (intro strip_prefix_other) auto
  have 2: "strip_prefix ''true'' (c # cs) = None" using assms(1) by (intro strip_prefix_other) auto
  have 3: "strip_prefix ''false'' (c # cs) = None" using assms(1) by (intro strip_prefix_other) auto
  have 4: "strip_prefix [dquote] (c # cs) = None" using assms(1) by (intro strip_prefix_other) auto
  have 5: "strip_prefix ''['' (c # cs) = None" using assms(1) by (intro strip_prefix_other) auto
  have 6: "strip_prefix ''{'' (c # cs) = None" using assms(1) by (intro strip_prefix_other) auto
  show ?thesis
    apply (subst parse_value.simps)
    apply (unfold Let_def s)
    apply (simp only: 1 2 3 4 5 6 option.case)
    done
qed

lemma parse_value_dquote:
  "parse_value (Suc n) (dquote # cs) = map_option (\<lambda>(str, r'). (JStr str, r')) (parse_chars cs)"
proof -
  have s: "skip_ws (dquote # cs) = dquote # cs" by (rule skip_ws_punct)
  have 1: "strip_prefix ''null'' (dquote # cs) = None" by (simp add: dquote_def)
  have 2: "strip_prefix ''true'' (dquote # cs) = None" by (simp add: dquote_def)
  have 3: "strip_prefix ''false'' (dquote # cs) = None" by (simp add: dquote_def)
  have 4: "strip_prefix [dquote] (dquote # cs) = Some cs" by simp
  show ?thesis
    apply (subst parse_value.simps)
    apply (unfold Let_def s)
    apply (simp only: 1 2 3 4 option.case)
    done
qed

lemma parse_value_bracket:
  "parse_value (Suc n) (CHR ''['' # cs) =
     (case strip_prefix '']'' (skip_ws cs) of
        Some r' \<Rightarrow> Some (JArr [], r')
      | None \<Rightarrow> map_option (\<lambda>(xs, r'). (JArr xs, r')) (parse_elements n cs))"
proof -
  have s: "skip_ws (CHR ''['' # cs) = CHR ''['' # cs" by (simp add: skip_ws_def json_space_def)
  have 1: "strip_prefix ''null'' (CHR ''['' # cs) = None" by simp
  have 2: "strip_prefix ''true'' (CHR ''['' # cs) = None" by simp
  have 3: "strip_prefix ''false'' (CHR ''['' # cs) = None" by simp
  have 4: "strip_prefix [dquote] (CHR ''['' # cs) = None" by (simp add: dquote_def)
  have 5: "strip_prefix ''['' (CHR ''['' # cs) = Some cs" by simp
  show ?thesis
    apply (subst parse_value.simps)
    apply (unfold Let_def s)
    apply (simp only: 1 2 3 4 5 option.case)
    done
qed

lemma parse_value_brace:
  "parse_value (Suc n) (CHR ''{'' # cs) =
     (case strip_prefix ''}'' (skip_ws cs) of
        Some r' \<Rightarrow> Some (JObj [], r')
      | None \<Rightarrow> map_option (\<lambda>(kvs, r'). (JObj (assign_all [] kvs), r')) (parse_members n cs))"
proof -
  have s: "skip_ws (CHR ''{'' # cs) = CHR ''{'' # cs" by (simp add: skip_ws_def json_space_def)
  have 1: "strip_prefix ''null'' (CHR ''{'' # cs) = None" by simp
  have 2: "strip_prefix ''true'' (CHR ''{'' # cs) = None" by simp
  have 3: "strip_prefix ''false'' (CHR ''{'' # cs) = None" by simp
  have 4: "strip_prefix [dquote] (CHR ''{'' # cs) = None" by (simp add: dquote_def)
  have 5: "strip_prefix ''['' (CHR ''{'' # cs) = None" by simp
  have 6: "strip_prefix ''{'' (CHR ''{'' # cs) = Some cs" by simp
  show ?thesis
    apply (subst parse_value.simps)
    apply (unfold Let_def s)
    apply (simp only: 1 2 3 4 5 6 option.case)
    done
qed

lemma parse_value_literals:
  "parse_value (Suc n) (''null'' @ rest) = Some (JNull, rest)"
  "parse_value (Suc n) (''true'' @ rest) = Some (JBool True, rest)"
  "parse_value (Suc n) (''false'' @ rest) = Some (JBool False, rest)"
  by (simp_all add: parse_value.simps skip_ws_def json_space_def Let_def)

lemma parse_value_string:
  "parse_value (Suc n) (quote s @ rest) = Some (JStr s, rest)"
  by (simp add: quote_def parse_value_dquote parse_chars_quote)

lemma parse_value_number:
  assumes "number_end rest"
  shows "parse_value (Suc n) (string_of_int i @ rest) = Some (JNum i, rest)"
proof -
  obtain c cs where h: "string_of_int i = c # cs" "number_start c"
    using string_of_int_lead by blast
  have e: "string_of_int i @ rest = c # (cs @ rest)" using h(1) by simp
  have c6: "c \<notin> {CHR ''n'', CHR ''t'', CHR ''f'', dquote, CHR ''['', CHR ''{''}"
    and sp: "\<not> json_space c"
    using h(2) by (simp_all add: number_start_def)
  have "parse_value (Suc n) (c # (cs @ rest)) = parse_number (c # (cs @ rest))"
    using c6 sp by (rule parse_value_other)
  also have "\<dots> = Some (JNum i, rest)"
    using parse_number_string_of_int [OF assms, of i] by (simp only: e)
  finally show ?thesis by (simp only: e)
qed

lemma json_stringify_lead: "\<exists>c cs. json_stringify v = c # cs \<and> value_start c"
proof (cases v)
  case (JNum i)
  then show ?thesis using string_of_int_lead [of i] by (auto simp: value_start_def number_start_def)
qed (auto simp: value_start_def json_space_def quote_def dquote_def)

lemma foldl_update_distinct:
  "distinct (map fst (acc @ kvs)) \<Longrightarrow> foldl (\<lambda>r (k, v). AList.update k v r) acc kvs = acc @ kvs"
proof (induction kvs arbitrary: acc)
  case Nil
  then show ?case by simp
next
  case (Cons kv kvs)
  obtain k v where kv: "kv = (k, v)" by (cases kv)
  have "k \<notin> fst ` set acc" using Cons.prems kv by auto
  then have u: "AList.update k v acc = acc @ [(k, v)]"
    by (induction acc) auto
  have "foldl (\<lambda>r (k, v). AList.update k v r) acc (kv # kvs)
          = foldl (\<lambda>r (k, v). AList.update k v r) (acc @ [(k, v)]) kvs"
    using kv u by simp
  also have "\<dots> = (acc @ [(k, v)]) @ kvs"
    using Cons.prems kv by (intro Cons.IH) simp
  finally show ?case using kv by simp
qed

lemma skip_ws_value: "value_start c \<Longrightarrow> skip_ws (c # cs) = c # cs"
  by (simp add: skip_ws_def value_start_def)

lemma strip_close_value:
  "value_start c \<Longrightarrow> strip_prefix '']'' (c # cs) = None"
  "value_start c \<Longrightarrow> strip_prefix ''}'' (c # cs) = None"
  by (auto simp: value_start_def)

lemma value_start_dquote: "value_start dquote"
  by (simp add: value_start_def json_space_def dquote_def)

text \<open>The elements of an array, once each element is known to parse back.\<close>

lemma parse_elements_join:
  assumes "xs \<noteq> []"
    and "\<And>x f rest. x \<in> set xs \<Longrightarrow> weight x \<le> f \<Longrightarrow> number_end rest \<Longrightarrow>
           parse_value f (json_stringify x @ rest) = Some (x, rest)"
    and "sum_list (map (\<lambda>x. 1 + weight x) xs) \<le> f"
  shows "parse_elements f (join_with '','' (map json_stringify xs) @ CHR '']'' # rest) = Some (xs, rest)"
  using assms
proof (induction xs arbitrary: f)
  case Nil
  then show ?case by simp
next
  case (Cons x xs)
  obtain n where f: "f = Suc n" using Cons.prems(3) by (cases f) auto
  have wx: "weight x \<le> n" using Cons.prems(3) f by simp
  show ?case
  proof (cases xs)
    case Nil
    have p: "parse_value n (json_stringify x @ CHR '']'' # rest) = Some (x, CHR '']'' # rest)"
      using Cons.prems(2) [of x n "CHR '']'' # rest"] wx by (simp add: number_end_punct)
    show ?thesis
      using Nil f p by (simp add: parse_elements.simps skip_ws_punct)
  next
    case ne: (Cons y ys)
    let ?tail = "join_with '','' (map json_stringify xs) @ CHR '']'' # rest"
    have p: "parse_value n (json_stringify x @ CHR '','' # ?tail) = Some (x, CHR '','' # ?tail)"
      using Cons.prems(2) [of x n "CHR '','' # ?tail"] wx by (simp add: number_end_punct)
    have "sum_list (map (\<lambda>x. 1 + weight x) xs) \<le> n"
      using \<open>sum_list (map (\<lambda>x. 1 + weight x) (x # xs)) \<le> f\<close> f by simp
    then have ih: "parse_elements n ?tail = Some (xs, rest)"
      using Cons.IH [of n] Cons.prems(2) ne by simp
    have j: "join_with '','' (map json_stringify (x # xs)) @ CHR '']'' # rest
               = json_stringify x @ CHR '','' # ?tail"
      using ne by simp
    show ?thesis
      unfolding j f using p ih by (simp add: parse_elements.simps skip_ws_punct)
  qed
qed

lemma parse_members_join:
  assumes "kvs \<noteq> []"
    and "\<And>kv f rest. kv \<in> set kvs \<Longrightarrow> weight (snd kv) \<le> f \<Longrightarrow> number_end rest \<Longrightarrow>
           parse_value f (json_stringify (snd kv) @ rest) = Some (snd kv, rest)"
    and "sum_list (map (\<lambda>kv. 1 + weight (snd kv)) kvs) \<le> f"
  shows "parse_members f (join_with '','' (map member_text kvs) @ CHR ''}'' # rest) = Some (kvs, rest)"
  using assms
proof (induction kvs arbitrary: f)
  case Nil
  then show ?case by simp
next
  case (Cons kv kvs)
  obtain k v where kv: "kv = (k, v)" by (cases kv)
  obtain n where f: "f = Suc n" using Cons.prems(3) by (cases f) auto
  have wx: "weight v \<le> n" using Cons.prems(3) f kv by simp
  have key: "\<And>tail. member_text kv @ tail
               = dquote # (concat (map escape_char k) @ dquote # CHR '':'' # json_stringify v @ tail)"
    by (simp add: member_text_def quote_def kv)
  have pk: "\<And>tail. parse_chars (concat (map escape_char k) @ dquote # CHR '':'' # json_stringify v @ tail)
               = Some (k, CHR '':'' # json_stringify v @ tail)"
    by (rule parse_chars_quote)
  show ?case
  proof (cases kvs)
    case Nil
    have p: "parse_value n (json_stringify v @ CHR ''}'' # rest) = Some (v, CHR ''}'' # rest)"
      using Cons.prems(2) [of kv n "CHR ''}'' # rest"] wx kv by (simp add: number_end_punct)
    have j: "join_with '','' (map member_text (kv # kvs)) @ CHR ''}'' # rest
               = dquote # (concat (map escape_char k) @ dquote # CHR '':'' # json_stringify v @ CHR ''}'' # rest)"
      using Nil key [of "CHR ''}'' # rest"] by simp
    show ?thesis
      unfolding j f using Nil p pk kv
      by (simp add: parse_members.simps skip_ws_punct)
  next
    case ne: (Cons y ys)
    let ?tail = "join_with '','' (map member_text kvs) @ CHR ''}'' # rest"
    have p: "parse_value n (json_stringify v @ CHR '','' # ?tail) = Some (v, CHR '','' # ?tail)"
      using Cons.prems(2) [of kv n "CHR '','' # ?tail"] wx kv by (simp add: number_end_punct)
    have "sum_list (map (\<lambda>kv. 1 + weight (snd kv)) kvs) \<le> n"
      using Cons.prems(3) f by simp
    then have ih: "parse_members n ?tail = Some (kvs, rest)"
      using Cons.IH [of n] Cons.prems(2) ne by simp
    have j: "join_with '','' (map member_text (kv # kvs)) @ CHR ''}'' # rest
               = dquote # (concat (map escape_char k) @ dquote # CHR '':'' # json_stringify v @ CHR '','' # ?tail)"
      using ne key [of "CHR '','' # ?tail"] by simp
    show ?thesis
      unfolding j f using p pk ih kv
      by (simp add: parse_members.simps skip_ws_punct)
  qed
qed

lemma json_stringify_object:
  "json_stringify (JObj kvs) = CHR ''{'' # join_with '','' (map member_text kvs) @ ''}''"
proof -
  have "member_text = (\<lambda>kv. quote (fst kv) @ '':'' @ json_stringify (snd kv))"
    by (rule ext) (simp add: member_text_def)
  then show ?thesis by simp
qed

lemma join_with_lead:
  "ys \<noteq> [] \<Longrightarrow> \<exists>c cs. hd ys = c # cs \<and> value_start c \<Longrightarrow>
   \<exists>c cs. join_with sep ys = c # cs \<and> value_start c"
proof (cases ys)
  case Nil
  assume "ys \<noteq> []"
  then show ?thesis using Nil by simp
next
  case (Cons y zs)
  assume "\<exists>c cs. hd ys = c # cs \<and> value_start c"
  then show ?thesis using Cons by (cases zs) auto
qed

lemma parse_value_json_stringify:
  "wf_json v \<Longrightarrow> weight v \<le> f \<Longrightarrow> number_end rest \<Longrightarrow>
   parse_value f (json_stringify v @ rest) = Some (v, rest)"
proof (induction v arbitrary: f rest)
  case JNull
  then obtain n where "f = Suc n" by (cases f) auto
  then show ?case using parse_value_literals(1) [of n rest] by simp
next
  case (JBool b)
  then obtain n where "f = Suc n" by (cases f) auto
  then show ?case using parse_value_literals(2,3) [of n rest] by (cases b) simp_all
next
  case (JNum i)
  then obtain n where "f = Suc n" by (cases f) auto
  then show ?case using parse_value_number [OF JNum.prems(3), of n i] by simp
next
  case (JStr s)
  then obtain n where "f = Suc n" by (cases f) auto
  then show ?case using parse_value_string [of n s rest] by simp
next
  case (JArr xs)
  obtain n where f: "f = Suc n" using JArr.prems(2) by (cases f) auto
  let ?body = "join_with '','' (map json_stringify xs) @ CHR '']'' # rest"
  have s: "json_stringify (JArr xs) @ rest = CHR ''['' # ?body" by simp
  show ?case
  proof (cases "xs = []")
    case True
    then show ?thesis unfolding s f by (simp add: parse_value_bracket skip_ws_punct)
  next
    case False
    have "\<exists>c cs. hd (map json_stringify xs) = c # cs \<and> value_start c"
      using False json_stringify_lead [of "hd xs"] by (simp add: hd_map)
    then obtain c cs where l: "join_with '','' (map json_stringify xs) = c # cs" "value_start c"
      using join_with_lead [of "map json_stringify xs" "'',''"] False by auto
    have e: "parse_elements n ?body = Some (xs, rest)"
    proof (rule parse_elements_join [OF False])
      fix x g r assume "x \<in> set xs" "weight x \<le> g" "number_end r"
      then show "parse_value g (json_stringify x @ r) = Some (x, r)"
        using JArr.IH [of x g r] JArr.prems(1) by simp
    next
      show "sum_list (map (\<lambda>x. 1 + weight x) xs) \<le> n" using JArr.prems(2) f by simp
    qed
    have "skip_ws ?body = ?body" "strip_prefix '']'' ?body = None"
      using l skip_ws_value [OF l(2)] strip_close_value(1) [OF l(2)] by simp_all
    then show ?thesis unfolding s f using e by (simp add: parse_value_bracket)
  qed
next
  case (JObj kvs)
  obtain n where f: "f = Suc n" using JObj.prems(2) by (cases f) auto
  let ?body = "join_with '','' (map member_text kvs) @ CHR ''}'' # rest"
  have s: "json_stringify (JObj kvs) @ rest = CHR ''{'' # ?body"
    by (subst json_stringify_object) simp
  have d: "assign_all [] kvs = kvs"
    using JObj.prems(1) foldl_update_distinct [of "[]" kvs] by (simp add: assign_all_def)
  show ?case
  proof (cases "kvs = []")
    case True
    then show ?thesis unfolding s f by (simp add: parse_value_brace skip_ws_punct)
  next
    case False
    have "\<exists>c cs. hd (map member_text kvs) = c # cs \<and> value_start c"
      using False value_start_dquote by (simp add: hd_map member_text_def quote_def)
    then obtain c cs where l: "join_with '','' (map member_text kvs) = c # cs" "value_start c"
      using join_with_lead [of "map member_text kvs" "'',''"] False by auto
    have e: "parse_members n ?body = Some (kvs, rest)"
    proof (rule parse_members_join [OF False])
      fix kv g r assume a: "kv \<in> set kvs" "weight (snd kv) \<le> g" "number_end r"
      have "snd kv \<in> Basic_BNFs.snds kv" by (cases kv) simp
      then show "parse_value g (json_stringify (snd kv) @ r) = Some (snd kv, r)"
        using JObj.IH [of kv "snd kv" g r] JObj.prems(1) a by simp
    next
      show "sum_list (map (\<lambda>kv. 1 + weight (snd kv)) kvs) \<le> n" using JObj.prems(2) f by simp
    qed
    have "skip_ws ?body = ?body" "strip_prefix ''}'' ?body = None"
      using l skip_ws_value [OF l(2)] strip_close_value(2) [OF l(2)] by simp_all
    then show ?thesis unfolding s f using e d by (simp add: parse_value_brace)
  qed
qed

lemma length_join_with:
  "sum_list (map (\<lambda>y. 1 + length y) ys) \<le> 1 + length (join_with '','' ys)"
  by (induction "'',''" ys rule: join_with.induct) simp_all

lemma sum_list_mono_map:
  "(\<And>x. x \<in> set xs \<Longrightarrow> f x \<le> (g x :: nat)) \<Longrightarrow> sum_list (map f xs) \<le> sum_list (map g xs)"
  by (induction xs) (auto simp: add_mono)

lemma weight_le_length: "weight v \<le> length (json_stringify v)"
proof (induction v)
  case (JNum i)
  obtain c cs where "string_of_int i = c # cs" using string_of_int_lead by blast
  then show ?case by simp
next
  case (JStr s)
  then show ?case by (simp add: quote_def)
next
  case (JArr xs)
  have "sum_list (map (\<lambda>x. 1 + weight x) xs) \<le> sum_list (map (\<lambda>x. 1 + length (json_stringify x)) xs)"
    using JArr.IH by (intro sum_list_mono_map) simp
  also have "\<dots> = sum_list (map (\<lambda>y. 1 + length y) (map json_stringify xs))"
    by (simp add: comp_def)
  also have "\<dots> \<le> 1 + length (join_with '','' (map json_stringify xs))"
    by (rule length_join_with)
  finally show ?case by simp
next
  case (JObj kvs)
  have "sum_list (map (\<lambda>kv. 1 + weight (snd kv)) kvs) \<le> sum_list (map (\<lambda>kv. 1 + length (member_text kv)) kvs)"
  proof (rule sum_list_mono_map)
    fix kv assume "kv \<in> set kvs"
    moreover have "snd kv \<in> Basic_BNFs.snds kv" by (cases kv) simp
    ultimately have "weight (snd kv) \<le> length (json_stringify (snd kv))" using JObj.IH by blast
    then show "1 + weight (snd kv) \<le> 1 + length (member_text kv)" by (simp add: member_text_def)
  qed
  also have "\<dots> = sum_list (map (\<lambda>y. 1 + length y) (map member_text kvs))"
    by (simp add: comp_def)
  also have "\<dots> \<le> 1 + length (join_with '','' (map member_text kvs))"
    by (rule length_join_with)
  finally show ?case by (subst json_stringify_object) simp
qed simp_all

lemma json_parse_json_stringify: "wf_json v \<Longrightarrow> json_parse (json_stringify v) = Some v"
proof -
  assume wf: "wf_json v"
  have "weight v \<le> Suc (length (json_stringify v))" using weight_le_length [of v] by simp
  then have "parse_value (Suc (length (json_stringify v))) (json_stringify v @ []) = Some (v, [])"
    using wf by (intro parse_value_json_stringify) (simp_all add: number_end_def)
  then show ?thesis by (simp add: json_parse_def skip_ws_def)
qed

section \<open>Properties of ScoreboardStorage\<close>

subsection \<open>Association lists and the next id\<close>

lemma Max_insert_max:
  "finite S \<Longrightarrow> Max (insert (max a t) S) = Max (insert (a::int) (insert t S))"
  by (cases "S = {}") (simp_all add: max.assoc)

lemma foldl_max_Max:
  "foldl (\<lambda>mx (p, score). if score > mx then score else mx) (a::int) es = Max (insert a (snd ` set es))"
proof (induction es arbitrary: a)
  case Nil then show ?case by simp
next
  case (Cons e es)
  obtain q t where e: "e = (q, t)" by (cases e)
  let ?f = "\<lambda>mx (p, score). if score > mx then score else (mx::int)"
  have "foldl ?f a (e # es) = foldl ?f (max a t) es"
    using e by (simp add: max_def)
  also have "\<dots> = Max (insert (max a t) (snd ` set es))"
    by (rule Cons.IH)
  also have "\<dots> = Max (insert a (insert t (snd ` set es)))"
    by (rule Max_insert_max) simp
  also have "insert a (insert t (snd ` set es)) = insert a (snd ` set (e # es))"
    using e by simp
  finally show ?case .
qed

lemma u_getNextId_Max: "u_getNextId objective = Max (insert 0 (snd ` set objective)) + 1"
  by (simp add: u_getNextId_def foldl_max_Max)

lemma set_update_distinct:
  "distinct (map fst xs) \<Longrightarrow> set (AList.update k v xs) = insert (k, v) {(a, b) \<in> set xs. a \<noteq> k}"
  by (induction xs) (auto simp: rev_image_eqI)

lemma set_delete: "set (AList.delete k xs) = {(a, b) \<in> set xs. a \<noteq> k}"
  by (auto simp: AList.delete_eq)


lemma snd_set_update_subset: "snd ` set (AList.update k v xs) \<subseteq> insert v (snd ` set xs)"
  by (induction xs) auto

lemma snd_set_update_mem: "v \<in> snd ` set (AList.update k v xs)"
  by (induction xs) (auto simp: rev_image_eqI)

lemma Max_scores_setScore:
  assumes "i = Max (insert 0 (snd ` set objective)) + 1"
  shows "Max (insert 0 (snd ` set (setScore objective json i))) = i"
proof (rule Max_eqI)
  show "finite (insert 0 (snd ` set (setScore objective json i)))" by simp
next
  fix y assume y: "y \<in> insert 0 (snd ` set (setScore objective json i))"
  have "y \<in> insert 0 (insert i (snd ` set objective))"
    using y snd_set_update_subset [of json i objective] by (auto simp: setScore_def)
  then consider "y = i" | "y \<in> insert 0 (snd ` set objective)" by auto
  then show "y \<le> i"
  proof cases
    case 1 then show ?thesis by simp
  next
    case 2
    have "y \<le> Max (insert 0 (snd ` set objective))" using 2 by (intro Max_ge) auto
    then show ?thesis using assms by simp
  qed
next
  show "i \<in> insert 0 (snd ` set (setScore objective json i))"
    using snd_set_update_mem [of i json objective] by (simp add: setScore_def)
qed

lemma wf_setScore: "distinct (map fst objective) \<Longrightarrow> distinct (map fst (setScore objective p s))"
  by (simp add: setScore_def distinct_update)

lemma wf_removeParticipant:
  "distinct (map fst objective) \<Longrightarrow> distinct (map fst (removeParticipant objective p))"
  by (simp add: removeParticipant_def distinct_delete)

lemma u_getNextId_fresh: "(p, s) \<in> set objective \<Longrightarrow> s < u_getNextId objective"
proof -
  assume "(p, s) \<in> set objective"
  then have "s \<le> Max (insert 0 (snd ` set objective))" by (intro Max_ge) (auto simp: rev_image_eqI)
  then show ?thesis by (simp add: u_getNextId_Max)
qed

lemma find_setScore_fresh:
  "\<forall>(p, s) \<in> set objective. s \<noteq> i \<Longrightarrow>
   List.find (\<lambda>(p, score). score = i) (setScore objective json i) = Some (json, i)"
  unfolding setScore_def
  by (induction objective) (auto)

lemma filter_key_distinct:
  "distinct (map fst xs) \<Longrightarrow> (k, v) \<in> set xs \<Longrightarrow> filter (\<lambda>(p, s). p = k) xs = [(k, v)]"
proof (induction xs)
  case Nil then show ?case by simp
next
  case (Cons x xs)
  obtain a b where x: "x = (a, b)" by (cases x)
  show ?case
  proof (cases "a = k")
    case True
    then have "k \<notin> fst ` set xs" using Cons.prems(1) x by simp
    then have "filter (\<lambda>(p, s). p = k) xs = []" by (auto simp: filter_empty_conv rev_image_eqI)
    moreover have "b = v" using Cons.prems True x \<open>k \<notin> fst ` set xs\<close> by (auto simp: rev_image_eqI)
    ultimately show ?thesis using True x by simp
  next
    case False
    then show ?thesis using Cons x by auto
  qed
qed

lemma length_update_present: "k \<in> fst ` set xs \<Longrightarrow> length (AList.update k v xs) = length xs"
  by (induction xs) auto

lemma u_getObjective_ok:
  assumes "\<not> list_all js_space c" "length c \<le> 16" "w c \<noteq> None \<or> \<not> addObjective_throws h c"
  shows "u_getObjective h w c =
           Inr (case w c of None \<Rightarrow> (w(c \<mapsto> []), []) | Some objective \<Rightarrow> (w, objective))"
  using assms by (cases "w c") (simp_all add: u_getObjective_def)

lemma save_ok:
  assumes "\<not> list_all js_space c" "length c \<le> 16" "w c \<noteq> None \<or> \<not> addObjective_throws h c"
    and "length (JSON_stringify h d) \<le> 32767"
  shows "save h w c (Some d) =
           (let objective = (case w c of None \<Rightarrow> [] | Some objective \<Rightarrow> objective)
            in (Inr (u_getNextId objective),
                w(c \<mapsto> setScore objective (JSON_stringify h d) (u_getNextId objective))))"
  using assms(4) u_getObjective_ok [where c = c and w = w and h = h, OF assms(1-3)]
  by (cases "w c") (simp_all add: save_def u_stringify_def Let_def)

subsection \<open>What save and deleteById do to the largest id\<close>

lemma save_effect:
  assumes "save h w c data = (r, w')" and "wf_world w c"
  shows "wf_world w' c \<and>
         ((\<exists>e. r = Inl e) \<and> max_id w' c = max_id w c
          \<or> r = Inr (max_id w c + 1) \<and> max_id w' c = max_id w c + 1)"
proof (cases "u_getObjective h w c")
  case (Inl e)
  then show ?thesis using assms by (auto simp: save_def)
next
  case (Inr pr)
  obtain w1 objective where pr: "pr = (w1, objective)" by (cases pr)
  have w1: "w1 c = Some objective \<and> distinct (map fst objective) \<and> max_id w1 c = max_id w c"
    using Inr pr assms(2)
    by (auto simp: u_getObjective_def wf_world_def max_id_def split: if_splits option.splits)
  show ?thesis
  proof (cases "u_stringify h data")
    case (Inl e)
    then show ?thesis using assms Inr pr w1 by (auto simp: save_def wf_world_def)
  next
    case (Inr json)
    let ?i = "u_getNextId objective"
    have r: "r = Inr ?i" and w': "w' = w1(c \<mapsto> setScore objective json ?i)"
      using assms(1) \<open>u_getObjective h w c = Inr pr\<close> pr Inr by (simp_all add: save_def Let_def)
    have "max_id w1 c = Max (insert 0 (snd ` set objective))" using w1 by (simp add: max_id_def)
    then have i: "?i = max_id w c + 1" using w1 by (simp add: u_getNextId_Max)
    have "max_id w' c = ?i"
      using Max_scores_setScore [of ?i objective json] by (simp add: w' max_id_def u_getNextId_Max)
    then show ?thesis using r w' i w1 by (simp add: wf_world_def wf_setScore)
  qed
qed

lemma find_Some_mem: "List.find P xs = Some x \<Longrightarrow> x \<in> set xs \<and> P x"
  by (induction xs) (auto split: if_splits)

lemma deleteById_effect:
  assumes "wf_world w c" and "i \<noteq> max_id w c"
  shows "wf_world (snd (deleteById w c i)) c \<and> max_id (snd (deleteById w c i)) c = max_id w c"
proof (cases "w c")
  case None
  then show ?thesis using assms by (simp add: deleteById_def)
next
  case (Some objective)
  show ?thesis
  proof (cases "List.find (\<lambda>(p, score). score = i) objective")
    case None
    then show ?thesis using Some assms by (simp add: deleteById_def)
  next
    case (Some a)
    obtain p s where a: "a = (p, s)" by (cases a)
    have mem: "(p, i) \<in> set objective" using find_Some_mem [OF Some] a by auto
    have d: "distinct (map fst objective)" using assms(1) \<open>w c = Some objective\<close> by (simp add: wf_world_def)
    let ?o = "removeParticipant objective p"
    have w': "snd (deleteById w c i) = w(c \<mapsto> ?o)"
      using \<open>w c = Some objective\<close> Some a by (simp add: deleteById_def)
    let ?m = "Max (insert 0 (snd ` set objective))"
    have m: "?m \<noteq> i" using assms(2) \<open>w c = Some objective\<close> by (simp add: max_id_def)
    have "Max (insert 0 (snd ` set ?o)) = ?m"
    proof (rule Max_eqI)
      show "finite (insert 0 (snd ` set ?o))" by simp
    next
      fix y assume "y \<in> insert 0 (snd ` set ?o)"
      then have "y \<in> insert 0 (snd ` set objective)"
        by (auto simp: removeParticipant_def set_delete)
      then show "y \<le> ?m" by (intro Max_ge) auto
    next
      have "?m \<in> insert 0 (snd ` set objective)" by (rule Max_in) auto
      then consider "?m = 0" | q where "(q, ?m) \<in> set objective" by auto
      then show "?m \<in> insert 0 (snd ` set ?o)"
      proof cases
        case 1 then show ?thesis by simp
      next
        case 2
        have "q \<noteq> p"
        proof
          assume "q = p"
          then have "?m = i"
            using eq_key_imp_eq_value [OF d _ mem, of ?m] 2 by simp
          then show False using m by simp
        qed
        then have "(q, ?m) \<in> set ?o" using 2 by (simp add: removeParticipant_def set_delete)
        then show ?thesis by (auto simp: rev_image_eqI)
      qed
    qed
    then show ?thesis using w' d \<open>w c = Some objective\<close>
      by (simp add: max_id_def wf_world_def wf_removeParticipant)
  qed
qed

lemma sorted_wrt_less_hd: "sorted_wrt (<) xs \<Longrightarrow> x \<in> set xs \<Longrightarrow> hd xs \<le> (x::int)"
  by (cases xs) auto

lemma issued_ids_increasing:
  "wf_world w c \<Longrightarrow> deletes_nonmaximal h c w ops \<Longrightarrow>
   sorted_wrt (<) (issued_ids h c w ops) \<and>
   (issued_ids h c w ops \<noteq> [] \<longrightarrow> hd (issued_ids h c w ops) = max_id w c + 1)"
proof (induction ops arbitrary: w)
  case Nil
  then show ?case by simp
next
  case (Cons x ops)
  show ?case
  proof (cases x)
    case (Save data)
    obtain r w' where s: "save h w c data = (r, w')" by (cases "save h w c data")
    note eff = save_effect [OF s Cons.prems(1)]
    have nm: "deletes_nonmaximal h c w' ops" using Cons.prems(2) Save s by simp
    note ih = Cons.IH [OF conjunct1 [OF eff] nm]
    from eff consider e where "r = Inl e" "max_id w' c = max_id w c"
      | "r = Inr (max_id w c + 1)" "max_id w' c = max_id w c + 1" by auto
    then show ?thesis
    proof cases
      case 1
      then show ?thesis using ih Save s by simp
    next
      case 2
      have "\<forall>y \<in> set (issued_ids h c w' ops). max_id w c + 1 < y"
      proof
        fix y assume y: "y \<in> set (issued_ids h c w' ops)"
        then have "issued_ids h c w' ops \<noteq> []" by auto
        then have "hd (issued_ids h c w' ops) = max_id w c + 2" using ih 2 by simp
        moreover have "hd (issued_ids h c w' ops) \<le> y"
          using sorted_wrt_less_hd ih y by blast
        ultimately show "max_id w c + 1 < y" by simp
      qed
      then show ?thesis using ih Save s 2 by simp
    qed
  next
    case (Delete i)
    have ne: "i \<noteq> max_id w c" and nm: "deletes_nonmaximal h c (snd (deleteById w c i)) ops"
      using Cons.prems(2) Delete by simp_all
    note eff = deleteById_effect [OF Cons.prems(1) ne]
    from Cons.IH [OF conjunct1 [OF eff] nm] show ?thesis
      using Delete eff by simp
  qed
qed

subsection \<open>Saving and reading back\<close>

text \<open>
  What is read back at the id \<open>save\<close> returns is the parse of the text it wrote.
\<close>

lemma save_then_getElementById:
  assumes name: "\<not> list_all js_space c" "length c \<le> 16"
    and host: "w c \<noteq> None \<or> \<not> addObjective_throws h c"
    and size: "length (JSON_stringify h d) \<le> 32767"
  shows "\<exists>id' w'. save h w c (Some d) = (Inr id', w')
           \<and> getElementById h w' c id' = u_parse h (JSON_stringify h d)"
proof -
  let ?objective = "case w c of None \<Rightarrow> [] | Some objective \<Rightarrow> objective"
  let ?i = "u_getNextId ?objective"
  let ?w = "w(c \<mapsto> setScore ?objective (JSON_stringify h d) ?i)"
  have sv: "save h w c (Some d) = (Inr ?i, ?w)"
    using save_ok [where c = c and w = w and h = h and d = d, OF name host size]
    by (simp add: Let_def)
  have "\<forall>(p, s) \<in> set ?objective. s \<noteq> ?i"
    using u_getNextId_fresh by fastforce
  then have "getElementById h ?w c ?i = u_parse h (JSON_stringify h d)"
    by (simp add: getElementById_def find_setScore_fresh)
  with sv show ?thesis by blast
qed

text \<open>
  C1. For a collection with a valid name that exists or can be created, and a
  document whose serialization is within the size bound and parses back to the
  document, \<open>save\<close> succeeds from every state of the store and
  \<open>getElementById\<close> at the id it returns gives the document back.
\<close>

theorem save_getElementById_roundtrip:
  assumes name: "\<not> list_all js_space c" "length c \<le> 16"
    and host: "w c \<noteq> None \<or> \<not> addObjective_throws h c"
    and size: "length (JSON_stringify h d) \<le> 32767"
    and ser: "JSON_parse h (JSON_stringify h d) = Some d"
  shows "\<exists>id' w'. save h w c (Some d) = (Inr id', w') \<and> getElementById h w' c id' = d"
proof -
  have "u_parse h (JSON_stringify h d) = d" by (simp add: u_parse_def ser)
  then show ?thesis
    using save_then_getElementById [where c = c and w = w and h = h and d = d, OF name host size]
    by simp
qed

theorem save_getElementById_roundtrip_witness:
  "\<exists>id' w'. save json_host Map.empty ''players''
              (Some (JObj [(''name'', JStr ''Stella''), (''level'', JNum 7)])) = (Inr id', w')
     \<and> getElementById json_host w' ''players'' id'
         = JObj [(''name'', JStr ''Stella''), (''level'', JNum 7)]"
proof -
  let ?d = "JObj [(''name'', JStr ''Stella''), (''level'', JNum 7)]"
  have n1: "\<not> list_all js_space ''players''" by (simp add: js_space_def)
  have n2: "length ''players'' \<le> 16" by simp
  have ho: "Map.empty ''players'' \<noteq> None \<or> \<not> addObjective_throws json_host ''players''"
    by (simp add: json_host_def)
  have "length (JSON_stringify json_host ?d) = 27" by code_simp
  then have sz: "length (JSON_stringify json_host ?d) \<le> 32767" by simp
  have se: "JSON_parse json_host (JSON_stringify json_host ?d) = Some ?d" by code_simp
  show ?thesis
    by (rule save_getElementById_roundtrip [OF n1 n2 ho sz se])
qed

text \<open>
  With the JSON implementation above as the host's, the hypothesis on the document
  is well-formedness: every well-formed document within the size bound is read
  back as it was saved.
\<close>

lemma save_getElementById_json:
  assumes "\<not> list_all js_space c" "length c \<le> 16"
    and "wf_json d" and "length (json_stringify d) \<le> 32767"
  shows "\<exists>id' w'. save json_host w c (Some d) = (Inr id', w')
           \<and> getElementById json_host w' c id' = d"
proof -
  have h: "w c \<noteq> None \<or> \<not> addObjective_throws json_host c" by (simp add: json_host_def)
  have s: "length (JSON_stringify json_host d) \<le> 32767" using assms(4) by (simp add: json_host_def)
  have "u_parse json_host (JSON_stringify json_host d) = d"
    using assms(3) by (simp add: u_parse_def json_host_def json_parse_json_stringify)
  then show ?thesis
    using save_then_getElementById
            [where c = c and w = w and h = json_host and d = d, OF assms(1,2) h s]
    by simp
qed

subsection \<open>The ids issued by a run\<close>

text \<open>
  C2. From a state whose participant names are distinct, along any run of saves and
  deletes in which no delete removes the largest id of its moment, the ids returned
  by the saves are strictly increasing; the first is one more than the largest id
  at the start, which is 1 for an absent or empty collection; and every successful
  save returns the largest id in use (0 when there is none) plus 1.
\<close>

theorem save_ids_strictly_increasing:
  assumes "wf_world w c" and "deletes_nonmaximal h c w ops"
  shows "sorted_wrt (<) (issued_ids h c w ops)
       \<and> (issued_ids h c w ops \<noteq> [] \<longrightarrow> hd (issued_ids h c w ops) = max_id w c + 1)
       \<and> (w c = None \<or> w c = Some [] \<longrightarrow> max_id w c + 1 = 1)
       \<and> (\<forall>data i w'. save h w c data = (Inr i, w') \<longrightarrow> i = max_id w c + 1)"
proof -
  have "\<forall>data i w'. save h w c data = (Inr i, w') \<longrightarrow> i = max_id w c + 1"
    using save_effect [OF _ assms(1)] by fastforce
  moreover have "w c = None \<or> w c = Some [] \<longrightarrow> max_id w c + 1 = 1"
    by (auto simp: max_id_def)
  ultimately show ?thesis using issued_ids_increasing [OF assms] by blast
qed

theorem save_ids_strictly_increasing_witness:
  "wf_world Map.empty ''c''
   \<and> deletes_nonmaximal json_host ''c'' Map.empty
        [Save (Some (JNum 10)), Save (Some (JNum 20)), Delete 1, Save (Some (JNum 30))]
   \<and> issued_ids json_host ''c'' Map.empty
        [Save (Some (JNum 10)), Save (Some (JNum 20)), Delete 1, Save (Some (JNum 30))] = [1, 2, 3]
   \<and> sorted_wrt (<) (issued_ids json_host ''c'' Map.empty
        [Save (Some (JNum 10)), Save (Some (JNum 20)), Delete 1, Save (Some (JNum 30))])
   \<and> max_id Map.empty ''c'' + 1 = 1"
proof -
  let ?ops = "[Save (Some (JNum 10)), Save (Some (JNum 20)), Delete 1, Save (Some (JNum 30))]"
  have h1: "wf_world Map.empty ''c''" by (simp add: wf_world_def)
  have h2: "deletes_nonmaximal json_host ''c'' Map.empty ?ops" by code_simp
  have h3: "issued_ids json_host ''c'' Map.empty ?ops = [1, 2, 3]" by code_simp
  have "Map.empty ''c'' = (None :: objective option)" by simp
  with save_ids_strictly_increasing [OF h1 h2] h1 h2 h3 show ?thesis by blast
qed

subsection \<open>Two documents with one serialization\<close>

text \<open>
  C3. When two documents with the same serialization are saved one after the other,
  both saves succeed, the second id is the larger, and afterwards the collection
  holds one entry with that content, under the second id: the second id reads the
  document back, the first id reads \<open>null\<close>, and the second save has not changed
  the number of entries.
\<close>

theorem save_identical_serialization_single_entry:
  assumes name: "\<not> list_all js_space c" "length c \<le> 16"
    and host: "w c \<noteq> None \<or> \<not> addObjective_throws h c"
    and wf: "wf_world w c"
    and same: "JSON_stringify h d1 = JSON_stringify h d2"
    and size: "length (JSON_stringify h d1) \<le> 32767"
  shows "\<exists>i1 w1 i2 w2 objective2.
           save h w c (Some d1) = (Inr i1, w1) \<and> save h w1 c (Some d2) = (Inr i2, w2) \<and> i1 < i2
         \<and> w2 c = Some objective2
         \<and> filter (\<lambda>(p, score). p = JSON_stringify h d1) objective2 = [(JSON_stringify h d1, i2)]
         \<and> getElementById h w2 c i2 = u_parse h (JSON_stringify h d2)
         \<and> getElementById h w2 c i1 = JNull
         \<and> count h w2 c QUndefined = count h w1 c QUndefined"
proof -
  let ?j = "JSON_stringify h d1"
  define objective where "objective = (case w c of None \<Rightarrow> [] | Some objective \<Rightarrow> objective)"
  define i1 where "i1 = u_getNextId objective"
  define objective1 where "objective1 = setScore objective ?j i1"
  define w1 where "w1 = w(c \<mapsto> objective1)"
  define i2 where "i2 = u_getNextId objective1"
  define objective2 where "objective2 = setScore objective1 ?j i2"
  define w2 where "w2 = w1(c \<mapsto> objective2)"
  have d0: "distinct (map fst objective)"
    using wf by (auto simp: wf_world_def objective_def split: option.splits)
  have d1: "distinct (map fst objective1)" by (simp add: objective1_def wf_setScore d0)
  have d2: "distinct (map fst objective2)" by (simp add: objective2_def wf_setScore d1)
  have s1: "save h w c (Some d1) = (Inr i1, w1)"
    using save_ok [where c = c and w = w and h = h and d = d1, OF name host size]
    by (simp add: Let_def objective_def i1_def objective1_def w1_def)
  have "save h w1 c (Some d2) = (Inr i2, w2)"
    using save_ok [where c = c and w = w1 and h = h and d = d2] name size same
    by (simp add: Let_def w1_def i2_def objective2_def w2_def)
  note s2 = this
  have set1: "set objective1 = insert (?j, i1) {(a, b) \<in> set objective. a \<noteq> ?j}"
    by (simp add: objective1_def setScore_def set_update_distinct [OF d0])
  have set2: "set objective2 = insert (?j, i2) {(a, b) \<in> set objective1. a \<noteq> ?j}"
    by (simp add: objective2_def setScore_def set_update_distinct [OF d1])
  have lt: "i1 < i2"
    using u_getNextId_fresh [of ?j i1 objective1] set1 by (simp add: i2_def)
  have fresh2: "\<forall>(p, s) \<in> set objective1. s \<noteq> i2"
    using u_getNextId_fresh [of _ _ objective1] by (fastforce simp: i2_def)
  have g2: "getElementById h w2 c i2 = u_parse h (JSON_stringify h d2)"
    using find_setScore_fresh [OF fresh2, of ?j] same
    by (simp add: getElementById_def w2_def objective2_def)
  have "\<forall>(p, s) \<in> set objective2. s \<noteq> i1"
  proof (clarify)
    fix p assume "(p, i1) \<in> set objective2"
    then have "(p, i1) \<in> set objective" using set1 set2 lt by auto
    then show False using u_getNextId_fresh [of p i1 objective] by (simp add: i1_def)
  qed
  then have "List.find (\<lambda>(p, score). score = i1) objective2 = None"
    by (auto simp: find_None_iff)
  then have g1: "getElementById h w2 c i1 = JNull"
    by (simp add: getElementById_def w2_def)
  have f: "filter (\<lambda>(p, score). p = ?j) objective2 = [(?j, i2)]"
    by (rule filter_key_distinct [OF d2]) (simp add: set2)
  have "?j \<in> fst ` set objective1" using set1 by (auto simp: rev_image_eqI)
  then have "length objective2 = length objective1"
    by (simp add: objective2_def setScore_def length_update_present)
  then have cnt: "count h w2 c QUndefined = count h w1 c QUndefined"
    by (simp add: count_def w1_def w2_def)
  have "w2 c = Some objective2" by (simp add: w2_def)
  with s1 s2 lt f g2 g1 cnt show ?thesis by blast
qed

theorem save_identical_serialization_single_entry_witness:
  "\<exists>i1 w1 i2 w2 objective2.
      save json_host Map.empty ''c'' (Some (JObj [(''a'', JNum 1)])) = (Inr i1, w1)
    \<and> save json_host w1 ''c'' (Some (JObj [(''a'', JNum 1)])) = (Inr i2, w2) \<and> i1 < i2
    \<and> w2 ''c'' = Some objective2
    \<and> filter (\<lambda>(p, score). p = JSON_stringify json_host (JObj [(''a'', JNum 1)])) objective2
        = [(JSON_stringify json_host (JObj [(''a'', JNum 1)]), i2)]
    \<and> getElementById json_host w2 ''c'' i2
        = u_parse json_host (JSON_stringify json_host (JObj [(''a'', JNum 1)]))
    \<and> getElementById json_host w2 ''c'' i1 = JNull
    \<and> count json_host w2 ''c'' QUndefined = count json_host w1 ''c'' QUndefined"
proof -
  let ?d = "JObj [(''a'', JNum 1)]"
  have n1: "\<not> list_all js_space ''c''" by (simp add: js_space_def)
  have n2: "length ''c'' \<le> 16" by simp
  have ho: "Map.empty ''c'' \<noteq> None \<or> \<not> addObjective_throws json_host ''c''"
    by (simp add: json_host_def)
  have wf: "wf_world Map.empty ''c''" by (simp add: wf_world_def)
  have "length (JSON_stringify json_host ?d) = 7" by code_simp
  then have sz: "length (JSON_stringify json_host ?d) \<le> 32767" by simp
  show ?thesis
    by (rule save_identical_serialization_single_entry [OF n1 n2 ho wf refl sz])
qed

lemma exists_loop_number: "exists_loop h (JNum n) objective = (n \<in> snd ` set objective)"
  by (induction objective) (auto simp: rev_image_eqI)

lemma find_score_None: "(List.find (\<lambda>(p, score). score = n) objective = None) = (n \<notin> snd ` set objective)"
  by (induction objective) (auto simp: rev_image_eqI)

lemma find_score_Some: "List.find (\<lambda>(p, score). score = n) objective = Some (p, s) \<Longrightarrow> s = n"
  by (induction objective) (auto split: if_splits)

subsection \<open>exists with a numeric query\<close>

text \<open>
  C6, as amended. \<open>exists(c, n)\<close> is true exactly when some entry of \<open>c\<close> carries
  the id \<open>n\<close>, whatever the host's JSON does (no content is parsed: the answer is the
  same under every host); \<open>getElementById(c, n)\<close> is non-null exactly when the
  first entry with id \<open>n\<close> has a content that parses to a non-null document; so a
  non-null \<open>getElementById\<close> implies \<open>exists\<close>, and not conversely.
\<close>

theorem exists_number_iff_entry:
  "exists h w c (QValue (JNum n)) = Inr (n \<in> snd ` set (entries w c))
   \<and> (\<forall>h'. exists h' w c (QValue (JNum n)) = exists h w c (QValue (JNum n)))
   \<and> (getElementById h w c n \<noteq> JNull \<longleftrightarrow>
        (\<exists>p. List.find (\<lambda>(p, score). score = n) (entries w c) = Some (p, n) \<and> u_parse h p \<noteq> JNull))
   \<and> (getElementById h w c n \<noteq> JNull \<longrightarrow> exists h w c (QValue (JNum n)) = Inr True)"
proof -
  have a: "exists h w c (QValue (JNum n)) = Inr (n \<in> snd ` set (entries w c))" for h
    by (cases "w c") (simp_all add: exists_def entries_def exists_loop_number)
  have a': "\<forall>h'. exists h' w c (QValue (JNum n)) = exists h w c (QValue (JNum n))"
    by (simp add: a)
  have b: "getElementById h w c n \<noteq> JNull \<longleftrightarrow>
        (\<exists>p. List.find (\<lambda>(p, score). score = n) (entries w c) = Some (p, n) \<and> u_parse h p \<noteq> JNull)"
  proof (cases "List.find (\<lambda>(p, score). score = n) (entries w c)")
    case None
    then show ?thesis by (cases "w c") (simp_all add: getElementById_def entries_def)
  next
    case (Some a)
    obtain p s where a: "a = (p, s)" by (cases a)
    have "s = n" using Some a find_score_Some by fastforce
    then show ?thesis using Some a by (cases "w c") (simp_all add: getElementById_def entries_def)
  qed
  have c: "getElementById h w c n \<noteq> JNull \<longrightarrow> exists h w c (QValue (JNum n)) = Inr True"
  proof
    assume "getElementById h w c n \<noteq> JNull"
    then have "List.find (\<lambda>(p, score). score = n) (entries w c) \<noteq> None" using b by auto
    then show "exists h w c (QValue (JNum n)) = Inr True" using a by (simp add: find_score_None)
  qed
  from a a' b c show ?thesis by blast
qed

theorem exists_number_iff_entry_witness:
  "exists json_host one_record_world ''stats'' (QValue (JNum 1)) = Inr True
   \<and> getElementById json_host one_record_world ''stats'' 1 = JObj [(''a'', JNum 1)]"
proof -
  have g: "getElementById json_host one_record_world ''stats'' 1 = JObj [(''a'', JNum 1)]"
    unfolding one_record_world_def by code_simp
  then have "getElementById json_host one_record_world ''stats'' 1 \<noteq> JNull" by simp
  with exists_number_iff_entry [of json_host one_record_world "''stats''" 1] g show ?thesis by blast
qed

text \<open>
  C6 as stated fails on an entry whose content is not JSON: \<open>exists\<close> answers true
  for its id and \<open>getElementById\<close> answers \<open>null\<close>.
\<close>

theorem exists_number_counterexample:
  "exists json_host foreign_world ''stats'' (QValue (JNum 5)) = Inr True
   \<and> getElementById json_host foreign_world ''stats'' 5 = JNull"
  unfolding foreign_world_def by code_simp

subsection \<open>count without a query\<close>

lemma getElements_undefined:
  "getElements h w c QUndefined = Inr (getElements_loop h QUndefined (entries w c))"
  by (cases "w c") (simp_all add: getElements_def entries_def)

lemma getElements_loop_length:
  "length objective =
     length (getElements_loop h QUndefined objective)
     + length (filter (\<lambda>(p, score). u_parse h p = JNull) objective)"
  by (induction objective) (auto simp: getElements_match_def Let_def)

text \<open>
  C7, as amended. \<open>count(c)\<close> without a query is the number of entries of the
  collection: the length of \<open>getElements(c)\<close> plus the number of entries whose
  content does not parse or parses to \<open>null\<close>. The two are equal exactly when
  every entry parses to a non-null document.
\<close>

theorem count_all_entries:
  "\<exists>n rs. count h w c QUndefined = Inr n \<and> getElements h w c QUndefined = Inr rs
     \<and> n = length (entries w c)
     \<and> n = length rs + length (filter (\<lambda>(p, score). u_parse h p = JNull) (entries w c))
     \<and> (n = length rs \<longleftrightarrow> (\<forall>(p, score) \<in> set (entries w c). u_parse h p \<noteq> JNull))"
proof (cases "w c")
  case None
  then show ?thesis by (simp add: count_def getElements_def entries_def)
next
  case (Some objective)
  have "(length (filter (\<lambda>(p, score). u_parse h p = JNull) objective) = 0)
        = (\<forall>(p, score) \<in> set objective. u_parse h p \<noteq> JNull)"
    by (auto simp: filter_empty_conv)
  then show ?thesis
    using Some getElements_loop_length [of objective h]
    by (simp add: count_def getElements_def entries_def)
qed

theorem count_all_entries_witness:
  "count json_host one_record_world ''stats'' QUndefined = Inr 1
   \<and> getElements json_host one_record_world ''stats'' QUndefined = Inr [(1, JObj [(''a'', JNum 1)])]"
proof -
  have e: "entries one_record_world ''stats'' = [(json_stringify (JObj [(''a'', JNum 1)]), 1)]"
    unfolding one_record_world_def by code_simp
  have g: "getElements json_host one_record_world ''stats'' QUndefined = Inr [(1, JObj [(''a'', JNum 1)])]"
    unfolding one_record_world_def by code_simp
  from count_all_entries [of json_host one_record_world "''stats''"] e g show ?thesis by auto
qed

text \<open>
  C7 as stated fails on an entry whose content is not JSON: it is counted, and
  \<open>getElements\<close> skips it.
\<close>

theorem count_getElements_counterexample:
  "count json_host foreign_world ''stats'' QUndefined = Inr 1
   \<and> getElements json_host foreign_world ''stats'' QUndefined = Inr []"
  unfolding foreign_world_def by code_simp

subsection \<open>The mass update never misses a participant of its snapshot\<close>

text \<open>
  On a collection whose names are distinct, the case of \<open>update_loop\<close> in which a
  participant of the snapshot has no score is never met: \<open>update\<close> throws nothing
  but what \<open>_stringify\<close> throws.
\<close>

lemma u_stringify_not_Error: "u_stringify h data \<noteq> Inl Error"
  by (auto simp: u_stringify_def Let_def split: option.splits)

lemma update_loop_no_host_error:
  "distinct ps \<Longrightarrow> set ps \<subseteq> fst ` set objective \<Longrightarrow>
   fst (update_loop h q newData ps objective n) \<noteq> Inl Error"
proof (induction ps arbitrary: objective n)
  case Nil
  then show ?case by simp
next
  case (Cons p ps)
  show ?case
  proof (cases "u_parse h p \<noteq> JNull \<and> update_match q (u_parse h p)")
    case False
    then show ?thesis using Cons by (auto simp: Let_def)
  next
    case True
    have "p \<in> fst ` set objective" using Cons.prems(2) by simp
    then have "map_of objective p \<noteq> None" by (simp add: map_of_eq_None_iff)
    then obtain i where i: "getScore objective p = Some i"
      by (auto simp: getScore_def)
    let ?o1 = "removeParticipant objective p"
    show ?thesis
    proof (cases "u_stringify h (dataToSave newData (u_parse h p))")
      case (Inl e)
      then have "e \<noteq> Error" using u_stringify_not_Error by metis
      then show ?thesis using True i Inl by (simp add: Let_def)
    next
      case (Inr json)
      have "set ps \<subseteq> fst ` set (setScore ?o1 json i)"
      proof
        fix x assume x: "x \<in> set ps"
        then have "x \<noteq> p" using Cons.prems(1) by auto
        moreover have "x \<in> fst ` set objective" using x Cons.prems(2) by auto
        ultimately have "x \<in> fst ` set ?o1"
          by (auto simp: removeParticipant_def AList.delete_eq rev_image_eqI)
        then show "x \<in> fst ` set (setScore ?o1 json i)"
          by (simp add: setScore_def dom_update)
      qed
      then have "fst (update_loop h q newData ps (setScore ?o1 json i) (Suc n)) \<noteq> Inl Error"
        using Cons.IH Cons.prems(1) by simp
      then show ?thesis using True i Inr by (simp add: Let_def)
    qed
  qed
qed

lemma update_no_host_error:
  assumes "wf_world w c"
  shows "fst (update h w c q newData) \<noteq> Inl Error"
proof (cases "w c")
  case None
  then show ?thesis by (simp add: update_def split: query.splits newdata.splits)
next
  case (Some objective)
  have d: "distinct (map fst objective)" using assms Some by (simp add: wf_world_def)
  have "fst (update_loop h q newData (map fst objective) objective 0) \<noteq> Inl Error"
    by (rule update_loop_no_host_error [OF d]) simp
  then show ?thesis
    using Some by (cases q; cases newData) (auto simp: update_def split: prod.splits)
qed

subsection \<open>Serialization failures and the state of the collection\<close>

lemma updateById_error_unchanged: "updateById h w c i newData = (Inl e, w') \<Longrightarrow> w' = w"
  by (auto simp: updateById_def split: if_splits option.splits sum.splits prod.splits)

lemma save_error_entries_unchanged: "save h w c data = (Inl e, w') \<Longrightarrow> entries w' c = entries w c"
  by (auto simp: save_def u_getObjective_def entries_def Let_def
      split: if_splits option.splits sum.splits prod.splits)

text \<open>
  C5 fails in the mass update. \<open>update\<close> removes the matched participant before it
  serializes the replacement: with the transform \<open>(old) => undefined\<close> on a
  collection of one record, \<open>_stringify\<close> throws the TypeError after the removal,
  and the record is gone. (\<open>updateById\<close> serializes before it touches the
  objective, and \<open>save\<close> before it writes an entry, as the two lemmas above
  say; a failing \<open>save\<close> on an absent collection has created the empty
  objective, and no entry.)
\<close>

theorem update_unserializable_partial_effect:
  "one_record_world ''stats'' = Some [(json_stringify (JObj [(''a'', JNum 1)]), 1)]
   \<and> fst (update json_host one_record_world ''stats'' (QValue (JObj [])) (NFunction to_undefined))
       = Inl TypeError
   \<and> snd (update json_host one_record_world ''stats'' (QValue (JObj [])) (NFunction to_undefined)) ''stats''
       = Some []"
  unfolding one_record_world_def by code_simp

section \<open>Properties of CacheManager\<close>

subsection \<open>When the mirror follows the store\<close>

text \<open>
  On a regular state, each of the three mutations of the cache leaves a regular
  state, with the collection loaded and coherent, as long as the document it
  writes is fresh: not \<open>null\<close>, serialized to a text that parses back to it, and
  not already the content of another entry.
\<close>

lemma getElements_loop_map_filter:
  "getElements_loop h QUndefined objective
     = map (\<lambda>(p, s). (s, u_parse h p)) (filter (\<lambda>(p, s). u_parse h p \<noteq> JNull) objective)"
  by (induction objective) (auto simp: getElements_match_def Let_def)

lemma set_getElements_loop:
  "set (getElements_loop h QUndefined objective)
     = {(s, u_parse h p) | p s. (p, s) \<in> set objective \<and> u_parse h p \<noteq> JNull}"
  unfolding getElements_loop_map_filter by force

lemma fst_getElements_loop:
  "map fst (getElements_loop h QUndefined objective)
     = map snd (filter (\<lambda>(p, s). u_parse h p \<noteq> JNull) objective)"
  unfolding getElements_loop_map_filter by (induction objective) auto

lemma distinct_getElements_loop:
  "distinct (map snd objective) \<Longrightarrow> distinct (map fst (getElements_loop h QUndefined objective))"
  by (simp add: fst_getElements_loop distinct_map_filter)

lemma regular_iff:
  "regular h w mem c \<longleftrightarrow>
     distinct (map fst (entries w c)) \<and> distinct (map snd (entries w c))
     \<and> (\<forall>m. mem c = Some m \<longrightarrow>
           distinct (map fst m)
           \<and> set m = {(s, u_parse h p) | p s. (p, s) \<in> set (entries w c) \<and> u_parse h p \<noteq> JNull})"
  by (cases "mem c")
     (simp_all add: regular_def coherent_def entries_def [symmetric] getElements_undefined
        set_getElements_loop)

lemma u_ensureLoaded_regular:
  assumes "regular h w mem c"
  shows "\<exists>mem1 m. u_ensureLoaded h w mem c = Inr mem1 \<and> mem1 c = Some m \<and> regular h w mem1 c"
proof (cases "mem c")
  case (Some m)
  then show ?thesis using assms by (simp add: u_ensureLoaded_def)
next
  case None
  let ?rs = "getElements_loop h QUndefined (entries w c)"
  have d: "distinct (map fst ?rs)"
    using assms by (simp add: regular_iff distinct_getElements_loop)
  have f: "foldl (\<lambda>r (k, v). AList.update k v r) [] ?rs = ?rs"
    using foldl_update_distinct [of "[]" ?rs] d by simp
  have l: "u_ensureLoaded h w mem c = Inr (mem(c \<mapsto> ?rs))"
    using None f by (simp add: u_ensureLoaded_def getElements_undefined)
  have "regular h w (mem(c \<mapsto> ?rs)) c"
    using assms d by (simp add: regular_iff set_getElements_loop)
  then show ?thesis using l by simp
qed


lemma update_absent: "k \<notin> fst ` set xs \<Longrightarrow> AList.update k v xs = xs @ [(k, v)]"
  by (induction xs) auto

lemma delete_by_score:
  assumes "distinct (map fst objective)" "distinct (map snd objective)" "(p, i) \<in> set objective"
  shows "removeParticipant objective p = filter (\<lambda>(a, s). s \<noteq> i) objective"
proof -
  have "\<And>x. x \<in> set objective \<Longrightarrow> (fst x \<noteq> p) = (snd x \<noteq> i)"
  proof -
    fix x assume x: "x \<in> set objective"
    obtain a s where xa: "x = (a, s)" by (cases x)
    have "a = p \<Longrightarrow> s = i"
      using eq_key_imp_eq_value [OF assms(1), of a s i] x xa assms(3) by simp
    moreover have "s = i \<Longrightarrow> a = p"
      using eq_key_imp_eq_value [of "map prod.swap objective" i a p] x xa assms(2,3)
      by (force simp: comp_def)
    ultimately show "(fst x \<noteq> p) = (snd x \<noteq> i)" using xa by auto
  qed
  then have "\<And>x. x \<in> set objective \<Longrightarrow>
               (case x of (k', v) \<Rightarrow> p \<noteq> k') = (case x of (a, s) \<Rightarrow> s \<noteq> i)"
    by (auto simp: case_prod_beta)
  then have "filter (\<lambda>(k', v). p \<noteq> k') objective = filter (\<lambda>(a, s). s \<noteq> i) objective"
    by (intro filter_cong refl)
  then show ?thesis
    by (simp add: removeParticipant_def AList.delete_eq)
qed

lemma filter_score_fresh:
  "i \<notin> snd ` set objective \<Longrightarrow> filter (\<lambda>(a, s). s \<noteq> i) objective = objective"
  by (induction objective) auto

lemma mirror_update_parsed:
  assumes "distinct (map fst m)"
    and "set m = {(s, u_parse h p) | p s. (p, s) \<in> set objective \<and> u_parse h p \<noteq> JNull}"
    and "u_parse h json = d" "d \<noteq> JNull"
  shows "set (AList.update i d m)
           = {(s, u_parse h p) | p s.
                (p, s) \<in> set (filter (\<lambda>(a, s). s \<noteq> i) objective @ [(json, i)]) \<and> u_parse h p \<noteq> JNull}"
proof -
  have "set (AList.update i d m) = insert (i, d) {(a, b) \<in> set m. a \<noteq> i}"
    using assms(1) by (rule set_update_distinct)
  then show ?thesis using assms(2,3,4) by auto
qed

lemma mirror_delete_parsed:
  assumes "set m = {(s, u_parse h p) | p s. (p, s) \<in> set objective \<and> u_parse h p \<noteq> JNull}"
  shows "set (AList.delete i m)
           = {(s, u_parse h p) | p s.
                (p, s) \<in> set (filter (\<lambda>(a, s). s \<noteq> i) objective) \<and> u_parse h p \<noteq> JNull}"
  using assms by (auto simp: set_delete)


lemma u_getNextId_not_score: "u_getNextId objective \<notin> snd ` set objective"
proof
  assume "u_getNextId objective \<in> snd ` set objective"
  then obtain p where "(p, u_getNextId objective) \<in> set objective" by auto
  then show False using u_getNextId_fresh [of p "u_getNextId objective" objective] by simp
qed

lemma save_entries:
  assumes "save h w c data = (r, w')"
  shows "(\<exists>e. r = Inl e) \<and> entries w' c = entries w c
       \<or> (\<exists>d. data = Some d \<and> r = Inr (u_getNextId (entries w c))
             \<and> entries w' c = setScore (entries w c) (JSON_stringify h d) (u_getNextId (entries w c)))"
proof (cases "u_getObjective h w c")
  case (Inl e)
  then show ?thesis using assms by (auto simp: save_def)
next
  case (Inr pr)
  obtain w1 objective where pr: "pr = (w1, objective)" by (cases pr)
  have o: "objective = entries w c" "entries w1 c = entries w c"
    using Inr pr by (auto simp: u_getObjective_def entries_def split: if_splits option.splits)
  show ?thesis
  proof (cases "u_stringify h data")
    case (Inl e)
    then show ?thesis using assms Inr pr o by (auto simp: save_def)
  next
    case (Inr json)
    then obtain d where d: "data = Some d" "json = JSON_stringify h d"
      by (auto simp: u_stringify_def Let_def split: option.splits if_splits)
    then show ?thesis
      using assms \<open>u_getObjective h w c = Inr pr\<close> pr o Inr
      by (auto simp: save_def Let_def entries_def)
  qed
qed

lemma regular_world_only:
  "regular h w mem c \<Longrightarrow> entries w' c = entries w c \<Longrightarrow> regular h w' mem c"
  by (simp add: regular_iff)

lemma CacheManager_save_regular:
  assumes reg: "regular h w mem c"
    and fresh: "fresh_document h (entries w c) data"
    and run: "CacheManager_save h w mem c data = (r, w', mem')"
  shows "regular h w' mem' c \<and> mem' c \<noteq> None"
proof -
  obtain mem1 m where l: "u_ensureLoaded h w mem c = Inr mem1" and m: "mem1 c = Some m"
    and r1: "regular h w mem1 c"
    using u_ensureLoaded_regular [OF reg] by blast
  obtain r0 w0 where s: "save h w c data = (r0, w0)" by (cases "save h w c data")
  from save_entries [OF s] show ?thesis
  proof (elim disjE conjE exE)
    fix e assume e: "r0 = Inl e" "entries w0 c = entries w c"
    then have "w' = w0" "mem' = mem1" using run l s by (simp_all add: CacheManager_save_def)
    then show ?thesis using regular_world_only [OF r1 e(2)] m by simp
  next
    fix d
    let ?i = "u_getNextId (entries w c)"
    let ?j = "JSON_stringify h d"
    assume d: "data = Some d" "r0 = Inr ?i" "entries w0 c = setScore (entries w c) ?j ?i"
    have f: "d \<noteq> JNull" "u_parse h ?j = d" "?j \<notin> fst ` set (entries w c)"
      using fresh d(1) by (simp_all add: fresh_document_def u_parse_def)
    have e: "entries w0 c = entries w c @ [(?j, ?i)]"
      using d(3) f(3) by (simp add: setScore_def update_absent)
    have w': "w' = w0" and mem': "mem' = mem1(c \<mapsto> AList.update ?i d m)"
      using run l s d m by (simp_all add: CacheManager_save_def mirror_set_def)
    have i: "?i \<notin> snd ` set (entries w c)" by (rule u_getNextId_not_score)
    have dm: "distinct (map fst m)"
      and sm: "set m = {(s, u_parse h p) | p s. (p, s) \<in> set (entries w c) \<and> u_parse h p \<noteq> JNull}"
      using r1 m by (simp_all add: regular_iff)
    have "set (AList.update ?i d m)
            = {(s, u_parse h p) | p s. (p, s) \<in> set (entries w0 c) \<and> u_parse h p \<noteq> JNull}"
      using mirror_update_parsed [OF dm sm f(2) f(1), of ?i] filter_score_fresh [OF i] e by simp
    moreover have "distinct (map fst (entries w0 c))" "distinct (map snd (entries w0 c))"
      using r1 e f(3) i by (simp_all add: regular_iff)
    ultimately show ?thesis
      using w' mem' dm by (simp add: regular_iff distinct_update)
  qed
qed

lemma CacheManager_updateById_regular:
  assumes reg: "regular h w mem c"
    and fresh: "fresh_document h (filter (\<lambda>(p, s). s \<noteq> i) (entries w c)) data"
    and run: "CacheManager_updateById h w mem c i data = (r, w', mem')"
  shows "regular h w' mem' c \<and> mem' c \<noteq> None"
proof -
  obtain mem1 m where l: "u_ensureLoaded h w mem c = Inr mem1" and m: "mem1 c = Some m"
    and r1: "regular h w mem1 c"
    using u_ensureLoaded_regular [OF reg] by blast
  have dm: "distinct (map fst m)"
    and sm: "set m = {(s, u_parse h p) | p s. (p, s) \<in> set (entries w c) \<and> u_parse h p \<noteq> JNull}"
    and dn: "distinct (map fst (entries w c))" and ds: "distinct (map snd (entries w c))"
    using r1 m by (simp_all add: regular_iff)
  obtain r0 w0 where s: "updateById h w c i data = (r0, w0)" by (cases "updateById h w c i data")
  show ?thesis
  proof (cases "r0 = Inr True")
    case False
    then have "w0 = w"
      using s by (auto simp: updateById_def split: if_splits option.splits sum.splits prod.splits)
    moreover have "w' = w0" "mem' = mem1"
      using run l s False by (cases r0; auto simp: CacheManager_updateById_def)+
    ultimately show ?thesis using r1 m by simp
  next
    case True
    then obtain d objective p sc where d: "data = Some d" and o: "w c = Some objective"
      and j: "u_stringify h data = Inr (JSON_stringify h d)"
      and fd: "List.find (\<lambda>(p, score). score = i) objective = Some (p, sc)"
      and w0: "w0 = w(c \<mapsto> setScore (removeParticipant objective p) (JSON_stringify h d) i)"
      using s
      by (auto simp: updateById_def u_stringify_def Let_def
          split: if_splits option.splits sum.splits prod.splits)
    let ?j = "JSON_stringify h d"
    have en: "entries w c = objective" using o by (simp add: entries_def)
    have mem: "(p, i) \<in> set objective" using find_Some_mem [OF fd] by auto
    have rp: "removeParticipant objective p = filter (\<lambda>(a, s). s \<noteq> i) objective"
      using delete_by_score dn ds mem en by simp
    have f: "d \<noteq> JNull" "u_parse h ?j = d" "?j \<notin> fst ` set (filter (\<lambda>(a, s). s \<noteq> i) objective)"
      using fresh d en by (simp_all add: fresh_document_def u_parse_def)
    have e: "entries w0 c = filter (\<lambda>(a, s). s \<noteq> i) objective @ [(?j, i)]"
      using w0 rp f(3) by (simp add: entries_def setScore_def update_absent)
    have w': "w' = w0" and mem': "mem' = mem1(c \<mapsto> AList.update i d m)"
      using run l s True d m by (simp_all add: CacheManager_updateById_def mirror_set_def)
    have "set (AList.update i d m)
            = {(s, u_parse h p) | p s. (p, s) \<in> set (entries w0 c) \<and> u_parse h p \<noteq> JNull}"
      using mirror_update_parsed [OF dm sm f(2) f(1), of i] e en by simp
    moreover have "distinct (map fst (entries w0 c))"
      using dn en e f(3) by (simp add: distinct_map_filter)
    moreover have "distinct (map snd (entries w0 c))"
      using ds en e by (auto simp: distinct_map_filter)
    ultimately show ?thesis
      using w' mem' dm by (simp add: regular_iff distinct_update)
  qed
qed

lemma CacheManager_deleteById_regular:
  assumes reg: "regular h w mem c"
    and run: "CacheManager_deleteById h w mem c i = (r, w', mem')"
  shows "regular h w' mem' c \<and> mem' c \<noteq> None"
proof -
  obtain mem1 m where l: "u_ensureLoaded h w mem c = Inr mem1" and m: "mem1 c = Some m"
    and r1: "regular h w mem1 c"
    using u_ensureLoaded_regular [OF reg] by blast
  have dm: "distinct (map fst m)"
    and sm: "set m = {(s, u_parse h p) | p s. (p, s) \<in> set (entries w c) \<and> u_parse h p \<noteq> JNull}"
    and dn: "distinct (map fst (entries w c))" and ds: "distinct (map snd (entries w c))"
    using r1 m by (simp_all add: regular_iff)
  obtain ok w0 where s: "deleteById w c i = (ok, w0)" by (cases "deleteById w c i")
  show ?thesis
  proof (cases ok)
    case False
    then have "w0 = w"
      using s by (auto simp: deleteById_def split: option.splits prod.splits)
    moreover have "w' = w0" "mem' = mem1"
      using run l s False by (simp_all add: CacheManager_deleteById_def)
    ultimately show ?thesis using r1 m by simp
  next
    case True
    then obtain objective p sc where o: "w c = Some objective"
      and fd: "List.find (\<lambda>(p, score). score = i) objective = Some (p, sc)"
      and w0: "w0 = w(c \<mapsto> removeParticipant objective p)"
      using s by (auto simp: deleteById_def split: option.splits prod.splits)
    have en: "entries w c = objective" using o by (simp add: entries_def)
    have mem: "(p, i) \<in> set objective" using find_Some_mem [OF fd] by auto
    have rp: "removeParticipant objective p = filter (\<lambda>(a, s). s \<noteq> i) objective"
      using delete_by_score dn ds mem en by simp
    have e: "entries w0 c = filter (\<lambda>(a, s). s \<noteq> i) objective"
      using w0 rp by (simp add: entries_def)
    have w': "w' = w0" and mem': "mem' = mem1(c \<mapsto> AList.delete i m)"
      using run l s True m by (simp_all add: CacheManager_deleteById_def mirror_delete_def)
    have "set (AList.delete i m)
            = {(s, u_parse h p) | p s. (p, s) \<in> set (entries w0 c) \<and> u_parse h p \<noteq> JNull}"
      using mirror_delete_parsed [OF sm, of i] e en by simp
    moreover have "distinct (map fst (entries w0 c))" "distinct (map snd (entries w0 c))"
      using dn ds en e by (simp_all add: distinct_map_filter)
    ultimately show ?thesis
      using w' mem' dm by (simp add: regular_iff distinct_delete)
  qed
qed

subsection \<open>When it does not\<close>

text \<open>
  C4 fails when a save through the cache writes a content that is already there.
  The backing store re-keys the entry, so the old id disappears from it; the mirror
  gets the new id and keeps the old one. After the same document is saved twice,
  the store holds one record, under id 2, and the mirror holds two, under ids 1
  and 2.
\<close>

theorem cache_save_twice_incoherent:
  "fst saved_twice = Inr 2
   \<and> fst (snd saved_twice) ''stats'' = Some [(json_stringify (JObj [(''a'', JNum 1)]), 2)]
   \<and> snd (snd saved_twice) ''stats'' = Some [(1, JObj [(''a'', JNum 1)]), (2, JObj [(''a'', JNum 1)])]
   \<and> \<not> coherent json_host (fst (snd saved_twice)) (snd (snd saved_twice)) ''stats''"
  unfolding saved_twice_def by code_simp

subsection \<open>Reading a falsy document\<close>

text \<open>
  C10. Let a record be in the mirror of a loaded collection and in the backing
  store, with the same document. \<open>getElementById\<close> returns the document, and
  \<open>getById\<close> returns it when it is truthy and \<open>null\<close> otherwise: for the
  documents \<open>0\<close>, \<open>""\<close> and \<open>false\<close> the cache answers \<open>null\<close> and the
  storage engine does not, and the two reads differ for these documents only.
\<close>

theorem getById_falsy_document:
  assumes "mem c = Some m" and "map_of m i = Some d"
    and "List.find (\<lambda>(p, score). score = i) (entries w c) = Some (p, i)"
    and "JSON_parse h p = Some d"
  shows "getElementById h w c i = d
       \<and> fst (CacheManager_getById h w mem c i) = Inr (if truthy d then d else JNull)
       \<and> (d \<in> {JNum 0, JStr [], JBool False} \<longrightarrow>
            fst (CacheManager_getById h w mem c i) = Inr JNull \<and> getElementById h w c i \<noteq> JNull)
       \<and> (fst (CacheManager_getById h w mem c i) \<noteq> Inr (getElementById h w c i)
            \<longleftrightarrow> d \<in> {JNum 0, JStr [], JBool False})"
proof -
  have g: "getElementById h w c i = d"
    using assms(3,4) by (cases "w c") (simp_all add: getElementById_def entries_def u_parse_def)
  have l: "u_ensureLoaded h w mem c = Inr mem"
    using assms(1) by (simp add: u_ensureLoaded_def)
  have r: "fst (CacheManager_getById h w mem c i) = Inr (if truthy d then d else JNull)"
    using assms(1,2) by (simp add: CacheManager_getById_def l)
  have f: "(\<not> truthy d \<and> d \<noteq> JNull) = (d \<in> {JNum 0, JStr [], JBool False})"
    by (cases d) auto
  show ?thesis using g r f by auto
qed

theorem getById_falsy_document_witness:
  "fst (snd saved_zero) ''stats'' = Some [(json_stringify (JNum 0), 1)]
   \<and> snd (snd saved_zero) ''stats'' = Some [(1, JNum 0)]
   \<and> getElementById json_host (fst (snd saved_zero)) ''stats'' 1 = JNum 0
   \<and> fst (CacheManager_getById json_host (fst (snd saved_zero)) (snd (snd saved_zero)) ''stats'' 1) = Inr JNull"
proof -
  have m: "snd (snd saved_zero) ''stats'' = Some [(1, JNum 0)]"
    unfolding saved_zero_def by code_simp
  have w: "fst (snd saved_zero) ''stats'' = Some [(json_stringify (JNum 0), 1)]"
    unfolding saved_zero_def by code_simp
  have l: "map_of [(1, JNum 0)] (1::int) = Some (JNum 0)" by simp
  have f: "List.find (\<lambda>(p, score). score = 1) (entries (fst (snd saved_zero)) ''stats'')
             = Some (json_stringify (JNum 0), 1)"
    by (simp add: entries_def w)
  have p: "JSON_parse json_host (json_stringify (JNum 0)) = Some (JNum 0)" by code_simp
  from getById_falsy_document
         [where mem = "snd (snd saved_zero)" and w = "fst (snd saved_zero)" and c = "''stats''"
            and h = json_host, OF m l f p] m w
  show ?thesis by simp
qed

section \<open>Properties of Relation\<close>

subsection \<open>Reads and assignments\<close>

text \<open>
  Against a JSON value the read through the prototype chain compares as the own
  property does: this is the comparison in the loop over the keys of a query.
\<close>

lemma js_get_strict_eq_value:
  "strict_eq_ref (js_get h parsed key) (Value v) = strict_eq_opt (get_prop parsed key) (Some v)"
  by (cases "get_prop parsed key") (simp_all add: js_get_def inherited_def)

lemma get_clone_object: "get_clone h (kvs, ObjectParent) key = js_get h (JObj kvs) key"
  by (simp add: get_clone_def js_get_def split: option.splits)

lemma get_clone_cong:
  "map_of (fst r1) key = map_of (fst r2) key \<Longrightarrow> snd r1 = snd r2 \<Longrightarrow>
   get_clone h r1 key = get_clone h r2 key"
  by (cases r1; cases r2) (simp add: get_clone_def split: option.splits)

lemma set_clone_other:
  "k \<noteq> key \<Longrightarrow> map_of (fst (set_clone result key v)) k = map_of (fst result) k"
  by (simp add: set_clone_def update_conv')

lemma set_clone_field:
  "key \<noteq> proto_key \<Longrightarrow> set_clone result key v = (AList.update key v (fst result), snd result)"
  by (simp add: set_clone_def)

lemma set_clone_keeps:
  "map_of (fst result) k \<noteq> None \<Longrightarrow> map_of (fst (set_clone result key v)) k \<noteq> None"
  by (simp add: set_clone_def update_conv')

lemma set_clone_distinct:
  "distinct (map fst (fst result)) \<Longrightarrow> distinct (map fst (fst (set_clone result key v)))"
  by (simp add: set_clone_def distinct_update)

subsection \<open>The loop over the bindings\<close>

lemma processBinding_cases:
  "\<exists>v. processBinding h w b result = Inr (set_clone result (as b) v)
       \<and> (get_clone h result (localField b) = Undefined
            \<or> get_clone h result (localField b) = Value JNull
            \<longrightarrow> v = missing_default b)"
  by (auto simp: processBinding_def getElements_undefined missing_default_def Let_def)

lemma processBindings_append:
  "processBindings h w (xs @ ys) result =
     (case processBindings h w xs result of Inl e \<Rightarrow> Inl e | Inr r \<Rightarrow> processBindings h w ys r)"
  by (induction xs arbitrary: result) (auto split: sum.splits)

lemma processBindings_frame:
  "\<exists>r. processBindings h w bs result = Inr r
       \<and> (\<forall>k. k \<notin> as ` set bs \<longrightarrow> map_of (fst r) k = map_of (fst result) k)
       \<and> (\<forall>k. map_of (fst result) k \<noteq> None \<longrightarrow> map_of (fst r) k \<noteq> None)
       \<and> (\<forall>b \<in> set bs. as b \<noteq> proto_key \<longrightarrow> map_of (fst r) (as b) \<noteq> None)
       \<and> (distinct (map fst (fst result)) \<longrightarrow> distinct (map fst (fst r)))
       \<and> (proto_key \<notin> as ` set bs \<longrightarrow> snd r = snd result)"
proof (induction bs arbitrary: result)
  case Nil
  then show ?case by simp
next
  case (Cons b bs)
  obtain v where v: "processBinding h w b result = Inr (set_clone result (as b) v)"
    using processBinding_cases by blast
  let ?r1 = "set_clone result (as b) v"
  obtain r where r: "processBindings h w bs ?r1 = Inr r"
    and fr: "\<forall>k. k \<notin> as ` set bs \<longrightarrow> map_of (fst r) k = map_of (fst ?r1) k"
    and ke: "\<forall>k. map_of (fst ?r1) k \<noteq> None \<longrightarrow> map_of (fst r) k \<noteq> None"
    and pr: "\<forall>b \<in> set bs. as b \<noteq> proto_key \<longrightarrow> map_of (fst r) (as b) \<noteq> None"
    and di: "distinct (map fst (fst ?r1)) \<longrightarrow> distinct (map fst (fst r))"
    and pa: "proto_key \<notin> as ` set bs \<longrightarrow> snd r = snd ?r1"
    using Cons.IH [of ?r1] by blast
  have 1: "processBindings h w (b # bs) result = Inr r" using v r by simp
  have 2: "\<forall>k. k \<notin> as ` set (b # bs) \<longrightarrow> map_of (fst r) k = map_of (fst result) k"
    using fr by (simp add: set_clone_other)
  have 3: "\<forall>k. map_of (fst result) k \<noteq> None \<longrightarrow> map_of (fst r) k \<noteq> None"
    using ke set_clone_keeps by blast
  have 4: "\<forall>b' \<in> set (b # bs). as b' \<noteq> proto_key \<longrightarrow> map_of (fst r) (as b') \<noteq> None"
  proof (intro ballI impI)
    fix b' assume b': "b' \<in> set (b # bs)" and n: "as b' \<noteq> proto_key"
    show "map_of (fst r) (as b') \<noteq> None"
    proof (cases "b' \<in> set bs")
      case True
      then show ?thesis using pr n by blast
    next
      case False
      then have "b' = b" using b' by auto
      then have "map_of (fst ?r1) (as b') \<noteq> None"
        using n by (simp add: set_clone_field update_conv')
      then show ?thesis using ke by blast
    qed
  qed
  have 5: "distinct (map fst (fst result)) \<longrightarrow> distinct (map fst (fst r))"
    using di set_clone_distinct by blast
  have 6: "proto_key \<notin> as ` set (b # bs) \<longrightarrow> snd r = snd result"
    using pa by (auto simp: set_clone_field)
  from 1 2 3 4 5 6 show ?case by blast
qed

lemma processBindings_missing:
  assumes "get_clone h result (localField b) = Undefined
             \<or> get_clone h result (localField b) = Value JNull"
    and "localField b \<notin> as ` set pre" and "proto_key \<notin> as ` set pre"
    and "as b \<notin> as ` set post" and "as b \<noteq> proto_key"
    and "processBindings h w (pre @ b # post) result = Inr r"
  shows "map_of (fst r) (as b) = Some (missing_default b)"
proof -
  obtain r1 where r1: "processBindings h w pre result = Inr r1"
    and f1: "\<forall>k. k \<notin> as ` set pre \<longrightarrow> map_of (fst r1) k = map_of (fst result) k"
    and p1: "proto_key \<notin> as ` set pre \<longrightarrow> snd r1 = snd result"
    using processBindings_frame [of h w pre result] by blast
  have "get_clone h r1 (localField b) = get_clone h result (localField b)"
    using f1 p1 assms(2,3) by (intro get_clone_cong) simp_all
  then have lv: "get_clone h r1 (localField b) = Undefined
                   \<or> get_clone h r1 (localField b) = Value JNull"
    using assms(1) by simp
  obtain v where v: "processBinding h w b r1 = Inr (set_clone r1 (as b) v)"
    and dv: "v = missing_default b"
    using processBinding_cases [of h w b r1] lv by blast
  let ?r2 = "set_clone r1 (as b) v"
  obtain r3 where r3: "processBindings h w post ?r2 = Inr r3"
    and f3: "\<forall>k. k \<notin> as ` set post \<longrightarrow> map_of (fst r3) k = map_of (fst ?r2) k"
    using processBindings_frame [of h w post ?r2] by blast
  have "processBindings h w (pre @ b # post) result = Inr r3"
    using r1 v r3 by (simp add: processBindings_append)
  then have "r = r3" using assms(6) by simp
  then show ?thesis using f3 assms(4,5) dv by (simp add: set_clone_field update_conv')
qed

lemma assign_all_distinct:
  "distinct (map fst (acc @ kvs)) \<Longrightarrow> assign_all acc kvs = acc @ kvs"
proof (induction kvs arbitrary: acc)
  case Nil
  then show ?case by (simp add: assign_all_def)
next
  case (Cons kv kvs)
  obtain k v where kv: "kv = (k, v)" by (cases kv)
  have "k \<notin> fst ` set acc" using Cons.prems kv by auto
  then have u: "AList.update k v acc = acc @ [(k, v)]"
    by (induction acc) auto
  have "assign_all acc (kv # kvs) = assign_all (acc @ [(k, v)]) kvs"
    using kv u by (simp add: assign_all_def)
  also have "\<dots> = (acc @ [(k, v)]) @ kvs"
    using Cons.prems kv by (intro Cons.IH) simp
  finally show ?case using kv by simp
qed

lemma spread_object: "distinct (map fst kvs) \<Longrightarrow> spread (JObj kvs) = kvs"
  using assign_all_distinct [of "[]" kvs] by (simp add: spread_def)

lemma processSingle_object:
  assumes "distinct (map fst kvs)"
  shows "\<exists>r. processSingle h w bs (JObj kvs) = Inr (JObj r)
           \<and> (\<exists>p. processBindings h w bs (kvs, ObjectParent) = Inr (r, p))
           \<and> (\<forall>k. k \<notin> as ` set bs \<longrightarrow> map_of r k = map_of kvs k)
           \<and> (\<forall>b \<in> set bs. as b \<noteq> proto_key \<longrightarrow> map_of r (as b) \<noteq> None)"
proof -
  obtain r where r: "processBindings h w bs (kvs, ObjectParent) = Inr r"
    and fr: "\<forall>k. k \<notin> as ` set bs \<longrightarrow> map_of (fst r) k = map_of kvs k"
    and pr: "\<forall>b \<in> set bs. as b \<noteq> proto_key \<longrightarrow> map_of (fst r) (as b) \<noteq> None"
    using processBindings_frame [of h w bs "(kvs, ObjectParent)"] by auto
  have "processSingle h w bs (JObj kvs) = Inr (JObj (fst r))"
    using r assms by (simp add: processSingle_def spread_object)
  moreover have "processBindings h w bs (kvs, ObjectParent) = Inr (fst r, snd r)"
    using r by simp
  ultimately show ?thesis using fr pr by blast
qed



lemma registered_nonempty: "registered reg c \<noteq> [] \<Longrightarrow> reg c = Some (registered reg c)"
  by (cases "reg c") (simp_all add: registered_def)


lemma populate_object:
  "registered reg c \<noteq> [] \<Longrightarrow>
   populate h w reg c (JObj kvs) rel = processSingle h w (selected rel (registered reg c)) (JObj kvs)"
  using registered_nonempty [of reg c] by (simp add: populate_def Let_def)


lemma selected_subset: "set (selected rel bs) \<subseteq> set bs"
  by (auto simp: selected_def)


subsection \<open>A missing local field\<close>

text \<open>
  C8, as amended. Let a binding be among those a \<open>populate\<close> call selects, with
  an alias other than \<open>__proto__\<close>, and let the read of its local field on the
  input object give \<open>undefined\<close> or \<open>null\<close>: the object has no such field, or
  \<open>null\<close> there, and the name is not one that every object inherits, such as
  \<open>constructor\<close>. Then the output has the alias field, whatever else is bound.
  Its value is \<open>null\<close> for a direct binding and the empty list for a reverse
  binding, provided that no selected binding before it has the local field as
  its alias (the loop reads the local field from the object it is filling), none
  before it has the alias \<open>__proto__\<close> (the loop then reads what the new
  prototype gives), and no selected binding after it has the same alias (the
  later one overwrites).
\<close>

theorem populate_missing_local_field:
  assumes "wf_object doc"
    and "js_get h doc (localField b) = Undefined \<or> js_get h doc (localField b) = Value JNull"
    and "selected rel (registered reg c) = pre @ b # post"
    and "as b \<noteq> proto_key"
  shows "\<exists>out. populate h w reg c doc rel = Inr out
           \<and> get_prop out (as b) \<noteq> None
           \<and> (localField b \<notin> as ` set pre \<and> proto_key \<notin> as ` set pre
                \<and> as b \<notin> as ` set post
                \<longrightarrow> get_prop out (as b) = Some (missing_default b))"
proof -
  obtain kvs where doc: "doc = JObj kvs" and d: "distinct (map fst kvs)"
    using assms(1) by (cases doc) auto
  have "set (selected rel (registered reg c)) \<noteq> {}" using assms(3) by simp
  then have ne: "registered reg c \<noteq> []" using selected_subset [of rel "registered reg c"] by auto
  obtain r p where ps: "processSingle h w (pre @ b # post) (JObj kvs) = Inr (JObj r)"
    and pb: "processBindings h w (pre @ b # post) (kvs, ObjectParent) = Inr (r, p)"
    and pr: "\<forall>b' \<in> set (pre @ b # post). as b' \<noteq> proto_key \<longrightarrow> map_of r (as b') \<noteq> None"
    using processSingle_object [OF d, of h w "pre @ b # post"] by blast
  have lv: "get_clone h (kvs, ObjectParent) (localField b) = Undefined
              \<or> get_clone h (kvs, ObjectParent) (localField b) = Value JNull"
    using assms(2) doc by (simp add: get_clone_object)
  have 1: "populate h w reg c doc rel = Inr (JObj r)"
    using populate_object [OF ne, of h w kvs rel] assms(3) ps doc by simp
  have 2: "get_prop (JObj r) (as b) \<noteq> None" using pr assms(4) by simp
  have 3: "localField b \<notin> as ` set pre \<and> proto_key \<notin> as ` set pre \<and> as b \<notin> as ` set post
             \<longrightarrow> get_prop (JObj r) (as b) = Some (missing_default b)"
    using processBindings_missing [of h "(kvs, ObjectParent)" b pre post w "(r, p)"] lv assms(4) pb
    by auto
  from 1 2 3 show ?thesis by blast
qed

theorem populate_missing_local_field_witness:
  "populate json_host guild_world player_bindings ''players''
      (JObj [(''name'', JStr ''S''), (''guildId'', JStr ''g1'')]) RDefault
     = Inr (JObj [(''name'', JStr ''S''), (''guildId'', JStr ''g1''),
                  (''guildData'', JObj [(''uuid'', JStr ''g1''), (''name'', JStr ''X'')]),
                  (''petData'', JNull)])
   \<and> (\<exists>out. populate json_host guild_world player_bindings ''players''
                 (JObj [(''name'', JStr ''S''), (''guildId'', JStr ''g1'')]) RDefault = Inr out
            \<and> get_prop out ''petData'' = Some JNull)"
proof -
  let ?doc = "JObj [(''name'', JStr ''S''), (''guildId'', JStr ''g1'')]"
  let ?b1 = "\<lparr> localField = ''guildId'', targetObjective = ''guilds'', targetField = ''uuid'',
                as = ''guildData'', isReverse = False \<rparr>"
  let ?b2 = "\<lparr> localField = ''petId'', targetObjective = ''pets'', targetField = ''uuid'',
                as = ''petData'', isReverse = False \<rparr>"
  have h1: "wf_object ?doc" by simp
  have "js_get json_host ?doc ''petId'' = Undefined" by code_simp
  then have h2: "js_get json_host ?doc (localField ?b2) = Undefined
                   \<or> js_get json_host ?doc (localField ?b2) = Value JNull"
    by simp
  have h3: "selected RDefault (registered player_bindings ''players'') = [?b1] @ ?b2 # []"
    by code_simp
  have h4: "as ?b2 \<noteq> proto_key" by code_simp
  have e: "populate json_host guild_world player_bindings ''players'' ?doc RDefault
     = Inr (JObj [(''name'', JStr ''S''), (''guildId'', JStr ''g1''),
                  (''guildData'', JObj [(''uuid'', JStr ''g1''), (''name'', JStr ''X'')]),
                  (''petData'', JNull)])"
    by code_simp
  from populate_missing_local_field [OF h1 h2 h3 h4, of guild_world] e
  show ?thesis by (simp add: missing_default_def)
qed

text \<open>
  C8 as stated fails in four ways. When the local field of a direct binding is
  the alias of an earlier binding: the input has no \<open>members\<close> field, the reverse
  binding puts a list there, the direct binding then reads that list, and its
  alias \<open>memberData\<close> becomes the empty list, not \<open>null\<close>. When a later binding
  has the same alias: the input has no \<open>petId\<close>, the first binding sets \<open>info\<close>
  to \<open>null\<close>, and the second one replaces it by the guild. When the local field
  is a name that every object inherits: the input has no field \<open>constructor\<close>,
  the read gives the function \<open>Object\<close>, the same that the guild gives under its
  target field, and the alias \<open>g\<close> is the guild. And when the alias is
  \<open>__proto__\<close>: the assignment goes to the setter, the output has no field of
  that name, and the later reverse binding, whose local field \<open>name\<close> the input
  has not, reads the name of the guild that has become the prototype.
\<close>

theorem populate_missing_local_field_counterexample:
  "chained_bindings ''guilds''
     = Some [\<lparr> localField = ''uuid'', targetObjective = ''players'', targetField = ''guildId'',
                as = ''members'', isReverse = True \<rparr>,
             \<lparr> localField = ''members'', targetObjective = ''players'', targetField = ''uuid'',
                as = ''memberData'', isReverse = False \<rparr>]
   \<and> get_prop (JObj [(''uuid'', JStr ''g1'')]) ''members'' = None
   \<and> populate json_host empty_world chained_bindings ''guilds'' (JObj [(''uuid'', JStr ''g1'')]) RDefault
     = Inr (JObj [(''uuid'', JStr ''g1''), (''members'', JArr []), (''memberData'', JArr [])])
   \<and> same_alias_bindings ''players''
     = Some [\<lparr> localField = ''petId'', targetObjective = ''pets'', targetField = ''uuid'',
                as = ''info'', isReverse = False \<rparr>,
             \<lparr> localField = ''guildId'', targetObjective = ''guilds'', targetField = ''uuid'',
                as = ''info'', isReverse = False \<rparr>]
   \<and> get_prop (JObj [(''name'', JStr ''S''), (''guildId'', JStr ''g1'')]) ''petId'' = None
   \<and> populate json_host guild_world same_alias_bindings ''players''
        (JObj [(''name'', JStr ''S''), (''guildId'', JStr ''g1'')]) RDefault
     = Inr (JObj [(''name'', JStr ''S''), (''guildId'', JStr ''g1''),
                  (''info'', JObj [(''uuid'', JStr ''g1''), (''name'', JStr ''X'')])])
   \<and> constructor_bindings ''players''
     = Some [\<lparr> localField = ''constructor'', targetObjective = ''guilds'',
                targetField = ''constructor'', as = ''g'', isReverse = False \<rparr>]
   \<and> get_prop (JObj [(''name'', JStr ''S'')]) ''constructor'' = None
   \<and> js_get json_host (JObj [(''name'', JStr ''S'')]) ''constructor''
     = Method ObjectPrototype ''constructor''
   \<and> populate json_host guild_world constructor_bindings ''players''
        (JObj [(''name'', JStr ''S'')]) RDefault
     = Inr (JObj [(''name'', JStr ''S''),
                  (''g'', JObj [(''uuid'', JStr ''g1''), (''name'', JStr ''X'')])])
   \<and> proto_alias_bindings ''players''
     = Some [\<lparr> localField = ''guildId'', targetObjective = ''guilds'', targetField = ''uuid'',
                as = ''__proto__'', isReverse = False \<rparr>,
             \<lparr> localField = ''name'', targetObjective = ''guilds'', targetField = ''name'',
                as = ''namesakes'', isReverse = True \<rparr>]
   \<and> js_get json_host (JObj [(''guildId'', JStr ''g1'')]) ''name'' = Undefined
   \<and> populate json_host guild_world proto_alias_bindings ''players''
        (JObj [(''guildId'', JStr ''g1'')]) RDefault
     = Inr (JObj [(''guildId'', JStr ''g1''),
                  (''namesakes'', JArr [JObj [(''uuid'', JStr ''g1''), (''name'', JStr ''X'')]])])"
  by code_simp

subsection \<open>The frame of populate\<close>




end
